theory Spec2Isabelle
  imports Main "HOL-Library.Word"
begin

section \<open>JavaScript strings\<close>

text \<open>
  A JavaScript string is a sequence of UTF-16 code units. The regular expression of
  \<^verbatim>\<open>removeCitations\<close> has no \<^verbatim>\<open>u\<close> flag, so it works on code units, and both
  thick brackets (U+3010, U+3011) are single code units.
\<close>

type_synonym code_unit = "16 word"
type_synonym js_string = "code_unit list"

definition js_of :: "string \<Rightarrow> js_string" where
  "js_of s = map of_char s"

section \<open>src/utils/textFormat.js\<close>

definition thick_open :: code_unit where "thick_open = 0x3010"
definition thick_close :: code_unit where "thick_close = 0x3011"
definition square_open :: code_unit where "square_open = 0x5B"
definition square_close :: code_unit where "square_close = 0x5D"

text \<open>The characters the pattern \<^verbatim>\<open>.\<close> does not match: the ECMAScript line terminators.\<close>

definition is_line_terminator :: "code_unit \<Rightarrow> bool" where
  "is_line_terminator c = (c = 0x0A \<or> c = 0x0D \<or> c = 0x2028 \<or> c = 0x2029)"

text \<open>What \<^verbatim>\<open>String.prototype.trim\<close> strips: ECMAScript white space and line terminators.\<close>

definition is_trim_space :: "code_unit \<Rightarrow> bool" where
  "is_trim_space c =
     (c = 0x09 \<or> c = 0x0B \<or> c = 0x0C \<or> c = 0x20 \<or> c = 0xA0 \<or> c = 0x1680
      \<or> (0x2000 \<le> c \<and> c \<le> 0x200A) \<or> c = 0x202F \<or> c = 0x205F \<or> c = 0x3000
      \<or> c = 0xFEFF \<or> is_line_terminator c)"

definition trim :: "js_string \<Rightarrow> js_string" where
  "trim s = rev (dropWhile is_trim_space (rev (dropWhile is_trim_space s)))"

text \<open>
  \<^verbatim>\<open>.*?\<close> followed by a closing glyph \<open>c\<close>, run on the text after the opening glyph:
  the lazy star takes one more character at a time, so the match ends at the first \<open>c\<close>,
  and fails when a line terminator or the end of the text comes first. The result is the
  text after the match.
\<close>

fun match_close :: "code_unit \<Rightarrow> js_string \<Rightarrow> js_string option" where
  "match_close c [] = None"
| "match_close c (x # xs) =
     (if x = c then Some xs
      else if is_line_terminator x then None
      else match_close c xs)"

text \<open>
  \<^verbatim>\<open>text.replace(/\<lbrakk>.*?\<rbrakk>|\[.*?\]/g, "")\<close> (with the thick brackets in the first
  alternative): the scan goes left to right, a match is dropped and the scan goes on
  after it, a character where no alternative matches is kept.
\<close>

function replace_spans :: "js_string \<Rightarrow> js_string" where
  "replace_spans [] = []"
| "replace_spans (x # xs) =
     (if x = thick_open then
        (case match_close thick_close xs of
           Some r \<Rightarrow> replace_spans r
         | None \<Rightarrow> x # replace_spans xs)
      else if x = square_open then
        (case match_close square_close xs of
           Some r \<Rightarrow> replace_spans r
         | None \<Rightarrow> x # replace_spans xs)
      else x # replace_spans xs)"
  by pat_completeness auto
termination
proof -
  have shorter: "length r < Suc (length xs)" if "match_close c xs = Some r" for c xs r
    using that by (induction xs) (auto split: if_splits)
  show ?thesis
    by (relation "measure length") (auto dest: shorter)
qed

text \<open>
  \<^verbatim>\<open>removeCitations(text)\<close>; \<open>None\<close> is a \<^verbatim>\<open>null\<close> or \<^verbatim>\<open>undefined\<close> argument, which
  \<^verbatim>\<open>!text\<close> catches like the empty string.
\<close>

definition removeCitations :: "js_string option \<Rightarrow> js_string" where
  "removeCitations text =
     (case text of
        None \<Rightarrow> []
      | Some t \<Rightarrow> if t = [] then [] else trim (replace_spans t))"

subsection \<open>Citation spans\<close>

text \<open>
  A citation span, as the pattern of the source reads it: an opening bracket, any
  characters but line terminators, the closing bracket of the same kind.
\<close>

definition citation_span :: "js_string \<Rightarrow> bool" where
  "citation_span w =
     (\<exists>mid. (w = thick_open # mid @ [thick_close] \<or> w = square_open # mid @ [square_close])
        \<and> (\<forall>c \<in> set mid. \<not> is_line_terminator c))"

definition contains_span :: "js_string \<Rightarrow> bool" where
  "contains_span s = (\<exists>pre w post. s = pre @ w @ post \<and> citation_span w)"

text \<open>
  A bracket pair enclosing arbitrary characters, line terminators included.
\<close>

definition bracket_pair :: "js_string \<Rightarrow> bool" where
  "bracket_pair w =
     (\<exists>mid. w = thick_open # mid @ [thick_close] \<or> w = square_open # mid @ [square_close])"

definition contains_bracket_pair :: "js_string \<Rightarrow> bool" where
  "contains_bracket_pair s = (\<exists>pre w post. s = pre @ w @ post \<and> bracket_pair w)"

text \<open>The scan for a span, as a function: is there a position where the pattern matches?\<close>

fun has_span :: "js_string \<Rightarrow> bool" where
  "has_span [] = False"
| "has_span (x # xs) =
     ((x = thick_open \<and> match_close thick_close xs \<noteq> None)
      \<or> (x = square_open \<and> match_close square_close xs \<noteq> None)
      \<or> has_span xs)"

section \<open>services/openaiService.js\<close>

text \<open>
  The errors \<^verbatim>\<open>sendMessage\<close> can throw: its own two \<^verbatim>\<open>Error\<close> objects (the invalid
  payload of line 220 and the failed retrieval of line 299), the \<^verbatim>\<open>TypeError\<close> of reading a
  property of \<^verbatim>\<open>undefined\<close>, and the rejection of an \<^verbatim>\<open>axiosClient\<close> call, which is
  opaque and carries a tag here.
\<close>

datatype js_error =
    InvalidPayload
  | RetrieveFailed
  | TypeError
  | RequestError nat

text \<open>An \<^verbatim>\<open>axiosClient\<close> promise settles: resolved with the data, or rejected.\<close>

datatype 'a response = Resolved 'a | Rejected nat

text \<open>
  A message of the thread as the service reads it: \<^verbatim>\<open>role\<close>, \<^verbatim>\<open>run_id\<close> (\<^verbatim>\<open>null\<close> on
  a user message) and \<^verbatim>\<open>content\<close>, an array of parts of which only a text part has
  \<^verbatim>\<open>text.value\<close>; \<open>None\<close> is a missing or \<^verbatim>\<open>null\<close> \<^verbatim>\<open>content\<close>.
\<close>

datatype content_part = TextPart js_string | OtherPart

record message =
  role :: string
  run_id :: "string option"
  content :: "content_part list option"

text \<open>
  The remote service as a script: what the post of the user message and the creation of
  the run answer, and what the \<open>n\<close>-th fetch of the run and the \<open>n\<close>-th listing of the
  messages answer (counted from 0). The run is its \<^verbatim>\<open>id\<close>, a fetched run its \<^verbatim>\<open>status\<close>.
\<close>

record remote =
  post_message :: "unit response"
  create_run :: "string response"
  run_status :: "nat \<Rightarrow> string response"
  list_messages :: "nat \<Rightarrow> message list response"

text \<open>
  What a call does that can be observed from outside: the four remote calls, the
  \<^verbatim>\<open>setTimeout\<close> waits, and the entries of the error log with their source label.
  Console output is left out.
\<close>

datatype log_source =
  SendMessage1 | SendMessage2 | SendMessage3 | SendMessageRetry nat | SendMessage5

datatype event =
  PostMessage | CreateRun | GetRun | ListMessages | Sleep nat | LogError log_source js_error

type_synonym 'a outcome = "event list \<times> (js_error + 'a)"

text \<open>\<^verbatim>\<open>OpenAIService.logError\<close>: writes the log entry, then throws the error it was given.\<close>

definition logError :: "log_source \<Rightarrow> js_error \<Rightarrow> event list \<Rightarrow> 'a outcome" where
  "logError source error tr = (tr @ [LogError source error], Inl error)"

text \<open>\<^verbatim>\<open>!v\<close> on a string argument: \<^verbatim>\<open>null\<close>, \<^verbatim>\<open>undefined\<close> (\<open>None\<close>) or the empty string.\<close>

definition falsy :: "'a list option \<Rightarrow> bool" where
  "falsy v = (v = None \<or> v = Some [])"

text \<open>
  \<^verbatim>\<open>axiosClient.get\<close> of the run inside its \<^verbatim>\<open>try\<close>/\<^verbatim>\<open>catch\<close> (lines 247-253 and
  262-268): the catch logs under the given label and \<^verbatim>\<open>logError\<close> throws again.
\<close>

definition get_run :: "remote \<Rightarrow> log_source \<Rightarrow> event list \<Rightarrow> string outcome" where
  "get_run rem source tr =
     (case run_status rem (count_list tr GetRun) of
        Resolved status \<Rightarrow> (tr @ [GetRun], Inr status)
      | Rejected e \<Rightarrow> logError source (RequestError e) (tr @ [GetRun]))"

definition pending :: "string \<Rightarrow> bool" where
  "pending status = (status = ''in_progress'' \<or> status = ''queued'')"

text \<open>
  The \<^verbatim>\<open>while\<close> loop of lines 257-270. It has no bound, so it is a partial function:
  \<open>None\<close> is a loop that never ends.
\<close>

partial_function (option) poll_run :: "remote \<Rightarrow> event list \<Rightarrow> string \<Rightarrow> string outcome option" where
  "poll_run rem tr status =
     (if pending status then
        (case get_run rem SendMessage3 (tr @ [Sleep 5000]) of
           (tr', Inl e) \<Rightarrow> Some (tr', Inl e)
         | (tr', Inr status') \<Rightarrow> poll_run rem tr' status')
      else Some (tr, Inr status))"

text \<open>Lines 272-296: the retrieval loop, with its two constants.\<close>

definition retries :: nat where "retries = 5"
definition delay :: nat where "delay = 5000"

definition matches :: "string \<Rightarrow> message \<Rightarrow> bool" where
  "matches rid m = (run_id m = Some rid \<and> role m = ''assistant'')"

text \<open>\<^verbatim>\<open>Array.prototype.pop\<close> as used on the filtered array: its last element, if any.\<close>

definition pop :: "'a list \<Rightarrow> 'a option" where
  "pop xs = (if xs = [] then None else Some (last xs))"

text \<open>
  The chain \<^verbatim>\<open>lastMessage && lastMessage.content && lastMessage.content[0]["text"].value\<close>:
  \<open>Inr None\<close> when it is falsy, \<open>Inr (Some v)\<close> when it is the non-empty text \<open>v\<close>, and
  the \<^verbatim>\<open>TypeError\<close> when \<^verbatim>\<open>content\<close> is an empty array or its first part has no
  \<^verbatim>\<open>text\<close>.
\<close>

fun answer_text :: "message option \<Rightarrow> js_error + js_string option" where
  "answer_text None = Inr None"
| "answer_text (Some m) =
     (case content m of
        None \<Rightarrow> Inr None
      | Some [] \<Rightarrow> Inl TypeError
      | Some (OtherPart # _) \<Rightarrow> Inl TypeError
      | Some (TextPart v # _) \<Rightarrow> Inr (if v = [] then None else Some v))"

function retrieve_loop ::
  "remote \<Rightarrow> string \<Rightarrow> nat \<Rightarrow> event list \<Rightarrow> message option \<Rightarrow> message option outcome" where
  "retrieve_loop rem rid attempt tr lastMessage =
     (if attempt < retries then
        (case list_messages rem (count_list tr ListMessages) of
           Rejected e \<Rightarrow>
             logError (SendMessageRetry (attempt + 1)) (RequestError e) (tr @ [ListMessages])
         | Resolved messageList \<Rightarrow>
             (let lastMessage' = pop (filter (matches rid) messageList) in
              case answer_text lastMessage' of
                Inl e \<Rightarrow> logError (SendMessageRetry (attempt + 1)) e (tr @ [ListMessages])
              | Inr (Some v) \<Rightarrow> (tr @ [ListMessages], Inr lastMessage')
              | Inr None \<Rightarrow>
                  retrieve_loop rem rid (attempt + 1) (tr @ [ListMessages, Sleep delay])
                    lastMessage'))
      else (tr, Inr lastMessage))"
  by pat_completeness auto
termination
  by (relation "measure (\<lambda>(rem, rid, attempt, tr, lastMessage). retries - attempt)") auto

declare retrieve_loop.simps [simp del]

text \<open>
  \<^verbatim>\<open>String.prototype.includes\<close> and \<^verbatim>\<open>String.prototype.replace\<close> with a string pattern,
  which replaces the first occurrence only.
\<close>

fun js_includes :: "'a list \<Rightarrow> 'a list \<Rightarrow> bool" where
  "js_includes [] pat = (pat = [])"
| "js_includes (x # xs) pat = (take (length pat) (x # xs) = pat \<or> js_includes xs pat)"

fun replace_first :: "'a list \<Rightarrow> 'a list \<Rightarrow> 'a list \<Rightarrow> 'a list" where
  "replace_first [] pat new = (if pat = [] then new else [])"
| "replace_first (x # xs) pat new =
     (if take (length pat) (x # xs) = pat then new @ drop (length pat) (x # xs)
      else x # replace_first xs pat new)"

text \<open>Lines 302-309.\<close>

definition strip_assistant :: "js_string \<Rightarrow> js_string" where
  "strip_assistant resultMessage =
     (if js_includes resultMessage (js_of ''Assistant:'')
      then replace_first resultMessage (js_of ''Assistant:'') []
      else resultMessage)"

text \<open>Lines 298-309, after the loop: the check that throws, then the result.\<close>

definition result_message :: "message option outcome \<Rightarrow> js_string outcome" where
  "result_message r =
     (case r of
        (tr, Inl e) \<Rightarrow> (tr, Inl e)
      | (tr, Inr lastMessage) \<Rightarrow>
          (case answer_text lastMessage of
             Inl e \<Rightarrow> (tr, Inl e)
           | Inr None \<Rightarrow> (tr, Inl RetrieveFailed)
           | Inr (Some v) \<Rightarrow> (tr, Inr (strip_assistant v))))"

text \<open>The body of the outer \<^verbatim>\<open>try\<close> (lines 238-309).\<close>

definition run_and_retrieve :: "remote \<Rightarrow> event list \<Rightarrow> js_string outcome option" where
  "run_and_retrieve rem tr =
     (case create_run rem of
        Rejected e \<Rightarrow> Some (tr @ [CreateRun], Inl (RequestError e))
      | Resolved rid \<Rightarrow>
          (case get_run rem SendMessage2 (tr @ [CreateRun]) of
             (tr2, Inl e) \<Rightarrow> Some (tr2, Inl e)
           | (tr2, Inr status) \<Rightarrow>
               (case poll_run rem tr2 status of
                  None \<Rightarrow> None
                | Some (tr3, Inl e) \<Rightarrow> Some (tr3, Inl e)
                | Some (tr3, Inr final) \<Rightarrow>
                    Some (result_message (retrieve_loop rem rid 0 tr3 None)))))"

text \<open>
  \<^verbatim>\<open>sendMessage(message, threadId, assistantId)\<close>: the trace of what it did and what it
  returned or threw.
\<close>

definition sendMessage ::
  "remote \<Rightarrow> js_string option \<Rightarrow> string option \<Rightarrow> string option \<Rightarrow> js_string outcome option" where
  "sendMessage rem message threadId assistantId =
     (if falsy message \<or> falsy threadId \<or> falsy assistantId then Some ([], Inl InvalidPayload)
      else
        (case post_message rem of
           Rejected e \<Rightarrow> Some (logError SendMessage1 (RequestError e) [PostMessage])
         | Resolved _ \<Rightarrow>
             (case run_and_retrieve rem [PostMessage] of
                None \<Rightarrow> None
              | Some (tr, Inl e) \<Rightarrow> Some (logError SendMessage5 e tr)
              | Some (tr, Inr resultMessage) \<Rightarrow> Some (tr, Inr resultMessage))))"

section \<open>controllers/conversationController.js\<close>

text \<open>
  Lines 178-182 of \<^verbatim>\<open>sendMessageToAgent\<close>: the answer of \<^verbatim>\<open>sendMessage\<close> goes through
  \<^verbatim>\<open>removeCitations\<close>; an error goes to the handler's \<^verbatim>\<open>catch\<close>.
\<close>

definition agent_reply ::
  "remote \<Rightarrow> js_string option \<Rightarrow> string option \<Rightarrow> string option \<Rightarrow> js_string outcome option" where
  "agent_reply rem message thread_id assistant_id =
     (case sendMessage rem message thread_id assistant_id of
        None \<Rightarrow> None
      | Some (tr, Inl e) \<Rightarrow> Some (tr, Inl e)
      | Some (tr, Inr openAIResponse) \<Rightarrow> Some (tr, Inr (removeCitations (Some openAIResponse))))"

section \<open>Notions used in the statements\<close>

subsection \<open>Events of the two loops\<close>

text \<open>What the polling loop and the retrieval loop add to the trace.\<close>

definition poll_event :: "event \<Rightarrow> bool" where
  "poll_event ev = (ev = GetRun \<or> ev = Sleep 5000 \<or> (\<exists>e. ev = LogError SendMessage3 e))"

definition retrieve_event :: "event \<Rightarrow> bool" where
  "retrieve_event ev =
     (ev = ListMessages \<or> ev = Sleep delay \<or> (\<exists>n e. ev = LogError (SendMessageRetry n) e))"

text \<open>
  What holds when the polling loop ends: the trace has grown by polling events only, and
  a status it ends with is not a pending one.
\<close>

definition poll_post :: "event list \<Rightarrow> string outcome \<Rightarrow> bool" where
  "poll_post tr y =
     ((\<exists>ext. fst y = tr @ ext \<and> (\<forall>ev \<in> set ext. poll_event ev))
      \<and> (\<forall>final. snd y = Inr final \<longrightarrow> \<not> pending final))"

text \<open>
  An attempt of the retrieval loop that goes on to the next one: the listing is resolved,
  and the chain on the last message of the run is falsy without throwing, that is there
  is no assistant message of the run, or the last one has no content, or its first part
  is a text with the empty value.
\<close>

definition no_answer :: "string \<Rightarrow> message list response \<Rightarrow> bool" where
  "no_answer rid resp =
     (case resp of
        Rejected e \<Rightarrow> False
      | Resolved messageList \<Rightarrow> answer_text (pop (filter (matches rid) messageList)) = Inr None)"

subsection \<open>The same remote with every final status turned into completed\<close>

text \<open>
  \<open>as_completed\<close> answers like the remote it is given, but reports the status completed
  wherever that one reports a status that is not pending (failed, cancelled, expired or
  any other).
\<close>

definition settle :: "string \<Rightarrow> string" where
  "settle status = (if pending status then status else ''completed'')"



subsection \<open>Scripted remotes\<close>

text \<open>A remote where the run is completed at once and the answer is there.\<close>

definition remote_ok :: remote where
  "remote_ok =
     \<lparr>post_message = Resolved (), create_run = Resolved ''run_1'',
      run_status = (\<lambda>n. Resolved ''completed''),
      list_messages = (\<lambda>n. Resolved
        [\<lparr>role = ''user'', run_id = None, content = Some [TextPart (js_of ''hello'')]\<rparr>,
         \<lparr>role = ''assistant'', run_id = Some ''run_1'',
          content = Some [TextPart (js_of ''Assistant: hi [1]'')]\<rparr>])\<rparr>"

text \<open>A remote whose run goes through the statuses queued, in progress (twice), completed.\<close>

definition remote_scripted :: remote where
  "remote_scripted =
     \<lparr>post_message = Resolved (), create_run = Resolved ''run_1'',
      run_status = (\<lambda>n. if n < 4
         then Resolved ([''queued'', ''in_progress'', ''in_progress'', ''completed''] ! n)
         else Rejected 0),
      list_messages = (\<lambda>n. Resolved
        [\<lparr>role = ''assistant'', run_id = Some ''run_1'',
          content = Some [TextPart (js_of ''hi'')]\<rparr>])\<rparr>"

text \<open>
  A remote whose second answer to the fetch of the run is a rejection, and whose third
  would be the status completed.
\<close>

definition remote_fetch_fails_once :: remote where
  "remote_fetch_fails_once =
     \<lparr>post_message = Resolved (), create_run = Resolved ''run_1'',
      run_status = (\<lambda>n. if n = 0 then Resolved ''queued''
         else if n = 1 then Rejected 7 else Resolved ''completed''),
      list_messages = (\<lambda>n. Resolved
        [\<lparr>role = ''assistant'', run_id = Some ''run_1'',
          content = Some [TextPart (js_of ''hi'')]\<rparr>])\<rparr>"

text \<open>A remote that rejects the post of the user message.\<close>

definition remote_post_fails :: remote where
  "remote_post_fails =
     \<lparr>post_message = Rejected 3, create_run = Resolved ''run_1'',
      run_status = (\<lambda>n. Resolved ''completed''),
      list_messages = (\<lambda>n. Resolved
        [\<lparr>role = ''assistant'', run_id = Some ''run_1'',
          content = Some [TextPart (js_of ''hi'')]\<rparr>])\<rparr>"

text \<open>A remote whose thread never holds an assistant message of the run.\<close>

definition remote_no_answer :: remote where
  "remote_no_answer =
     \<lparr>post_message = Resolved (), create_run = Resolved ''run_1'',
      run_status = (\<lambda>n. Resolved ''completed''),
      list_messages = (\<lambda>n. Resolved
        [\<lparr>role = ''user'', run_id = None, content = Some [TextPart (js_of ''hello'')]\<rparr>,
         \<lparr>role = ''assistant'', run_id = Some ''run_0'',
          content = Some [TextPart (js_of ''earlier'')]\<rparr>])\<rparr>"

text \<open>
  A remote that rejects the listing of the messages, and one whose assistant message of
  the run has an empty content array.
\<close>

definition remote_list_rejected :: remote where
  "remote_list_rejected =
     \<lparr>post_message = Resolved (), create_run = Resolved ''run_1'',
      run_status = (\<lambda>n. Resolved ''completed''),
      list_messages = (\<lambda>n. Rejected 9)\<rparr>"

definition remote_empty_content :: remote where
  "remote_empty_content =
     \<lparr>post_message = Resolved (), create_run = Resolved ''run_1'',
      run_status = (\<lambda>n. Resolved ''completed''),
      list_messages = (\<lambda>n. Resolved
        [\<lparr>role = ''assistant'', run_id = Some ''run_1'', content = Some []\<rparr>])\<rparr>"

text \<open>
  A remote whose first listing is empty and whose second holds two assistant messages of
  the run, followed by a user message.
\<close>

definition answer_message :: message where
  "answer_message =
     \<lparr>role = ''assistant'', run_id = Some ''run_1'', content = Some [TextPart (js_of ''hi'')]\<rparr>"

definition remote_late_answer :: remote where
  "remote_late_answer =
     \<lparr>post_message = Resolved (), create_run = Resolved ''run_1'',
      run_status = (\<lambda>n. Resolved ''completed''),
      list_messages = (\<lambda>n. Resolved
        (if n = 0 then []
         else [\<lparr>role = ''assistant'', run_id = Some ''run_1'',
                 content = Some [TextPart (js_of ''first'')]\<rparr>,
               answer_message,
               \<lparr>role = ''user'', run_id = None,
                 content = Some [TextPart (js_of ''hello'')]\<rparr>]))\<rparr>"

text \<open>
  A remote whose listing holds an assistant message of the run with a text, followed by
  one of the same run with an empty text.
\<close>

definition remote_answer_not_last :: remote where
  "remote_answer_not_last =
     \<lparr>post_message = Resolved (), create_run = Resolved ''run_1'',
      run_status = (\<lambda>n. Resolved ''completed''),
      list_messages = (\<lambda>n. Resolved
        [answer_message,
         \<lparr>role = ''assistant'', run_id = Some ''run_1'', content = Some [TextPart []]\<rparr>])\<rparr>"



text \<open>A remote whose answer holds the assistant prefix twice, and a reference.\<close>

definition remote_two_prefixes :: remote where
  "remote_two_prefixes =
     \<lparr>post_message = Resolved (), create_run = Resolved ''run_1'',
      run_status = (\<lambda>n. Resolved ''completed''),
      list_messages = (\<lambda>n. Resolved
        [\<lparr>role = ''assistant'', run_id = Some ''run_1'',
          content = Some [TextPart (js_of ''Assistant: say Assistant: [2]'')]\<rparr>])\<rparr>"

section \<open>The sanitizer removes what its pattern matches\<close>

lemma match_close_decomp:
  "match_close c xs = Some r \<Longrightarrow>
     \<exists>mid. xs = mid @ c # r \<and> (\<forall>x \<in> set mid. \<not> is_line_terminator x) \<and> c \<notin> set mid"
proof (induction xs)
  case Nil
  then show ?case by simp
next
  case (Cons x xs)
  show ?case
  proof (cases "x = c")
    case True
    with Cons.prems have "r = xs" by simp
    with True have "x # xs = [] @ c # r" by simp
    then show ?thesis by fastforce
  next
    case False
    with Cons.prems have nl: "\<not> is_line_terminator x" and m: "match_close c xs = Some r"
      by (auto split: if_splits)
    from Cons.IH [OF m] obtain mid where
      "xs = mid @ c # r" "\<forall>x \<in> set mid. \<not> is_line_terminator x" "c \<notin> set mid" by blast
    with False nl have "x # xs = (x # mid) @ c # r \<and> (\<forall>y \<in> set (x # mid). \<not> is_line_terminator y)
        \<and> c \<notin> set (x # mid)" by auto
    then show ?thesis by blast
  qed
qed

lemma match_close_append:
  "\<forall>x \<in> set mid. \<not> is_line_terminator x \<Longrightarrow> match_close c (mid @ c # post) \<noteq> None"
  by (induction mid) auto

lemma match_close_skip:
  assumes "match_close d ys = Some r" and "match_close c ys = None"
    and "\<not> is_line_terminator d"
  shows "match_close c r = None"
  using assms
proof (induction ys)
  case Nil
  then show ?case by simp
next
  case (Cons z zs)
  then show ?case by (auto split: if_splits)
qed

lemma close_not_line_terminator:
  "\<not> is_line_terminator thick_close" "\<not> is_line_terminator square_close"
  by (simp_all add: is_line_terminator_def thick_close_def square_close_def)

lemma glyphs_distinct:
  "thick_open \<noteq> square_open" "\<not> is_line_terminator thick_open"
  "\<not> is_line_terminator square_open"
  by (simp_all add: is_line_terminator_def thick_open_def square_open_def)

lemma replace_spans_thick:
  "replace_spans (thick_open # xs) =
     (case match_close thick_close xs of Some r \<Rightarrow> replace_spans r
      | None \<Rightarrow> thick_open # replace_spans xs)"
  by simp

lemma replace_spans_square:
  "replace_spans (square_open # xs) =
     (case match_close square_close xs of Some r \<Rightarrow> replace_spans r
      | None \<Rightarrow> square_open # replace_spans xs)"
  using glyphs_distinct(1) by simp

lemma replace_spans_other:
  "x \<noteq> thick_open \<Longrightarrow> x \<noteq> square_open \<Longrightarrow> replace_spans (x # xs) = x # replace_spans xs"
  by simp

lemma match_close_replace_spans:
  "match_close c xs = None \<Longrightarrow> match_close c (replace_spans xs) = None"
proof (induction xs rule: length_induct)
  case (1 xs)
  show ?case
  proof (cases xs)
    case Nil
    then show ?thesis by simp
  next
    case (Cons x ys)
    from "1.prems" Cons have xc: "x \<noteq> c" by (auto split: if_splits)
    have kept: "match_close c (x # replace_spans ys) = None"
    proof (cases "is_line_terminator x")
      case True
      with xc show ?thesis by simp
    next
      case False
      with "1.prems" Cons xc have "match_close c ys = None" by simp
      with "1.IH" Cons have "match_close c (replace_spans ys) = None" by simp
      with xc False show ?thesis by simp
    qed
    have dropped: "match_close c (replace_spans r) = None"
      if m: "match_close d ys = Some r" and d: "\<not> is_line_terminator d"
        and x: "\<not> is_line_terminator x" for d r
    proof -
      from "1.prems" Cons xc x have rest: "match_close c ys = None" by simp
      from match_close_skip [OF m rest d] have "match_close c r = None" .
      moreover from match_close_decomp [OF m] have "length r < length xs"
        using Cons by auto
      ultimately show ?thesis using "1.IH" by blast
    qed
    consider (thick) "x = thick_open" | (square) "x = square_open"
      | (other) "x \<noteq> thick_open" "x \<noteq> square_open" by blast
    then show ?thesis
    proof cases
      case thick
      then show ?thesis
        using kept dropped [of thick_close] Cons
        by (simp add: replace_spans_thick close_not_line_terminator glyphs_distinct
            split: option.splits del: replace_spans.simps match_close.simps)
    next
      case square
      then show ?thesis
        using kept dropped [of square_close] Cons
        by (simp add: replace_spans_square close_not_line_terminator glyphs_distinct
            split: option.splits del: replace_spans.simps match_close.simps)
    next
      case other
      then show ?thesis using kept Cons by (simp add: replace_spans_other del: match_close.simps)
    qed
  qed
qed

lemma replace_spans_no_span: "\<not> has_span (replace_spans xs)"
proof (induction xs rule: length_induct)
  case (1 xs)
  show ?case
  proof (cases xs)
    case Nil
    then show ?thesis by simp
  next
    case (Cons x ys)
    have ih_tail: "\<not> has_span (replace_spans ys)" using "1.IH" Cons by simp
    have ih_rest: "\<not> has_span (replace_spans r)" if "match_close d ys = Some r" for d r
    proof -
      from match_close_decomp [OF that] have "length r < length xs" using Cons by auto
      then show ?thesis using "1.IH" by blast
    qed
    consider (thick) "x = thick_open" | (square) "x = square_open"
      | (other) "x \<noteq> thick_open" "x \<noteq> square_open" by blast
    then show ?thesis
    proof cases
      case thick
      show ?thesis
      proof (cases "match_close thick_close ys")
        case None
        with thick Cons ih_tail match_close_replace_spans [OF None] show ?thesis
          by (simp add: replace_spans_thick glyphs_distinct del: replace_spans.simps)
      next
        case (Some r)
        with thick Cons ih_rest [OF Some] show ?thesis
          by (simp add: replace_spans_thick del: replace_spans.simps)
      qed
    next
      case square
      show ?thesis
      proof (cases "match_close square_close ys")
        case None
        with square Cons ih_tail match_close_replace_spans [OF None] show ?thesis
          using glyphs_distinct(1)
          by (simp add: replace_spans_square del: replace_spans.simps)
      next
        case (Some r)
        with square Cons ih_rest [OF Some] show ?thesis
          by (simp add: replace_spans_square del: replace_spans.simps)
      qed
    next
      case other
      with Cons ih_tail show ?thesis by simp
    qed
  qed
qed

lemma replace_spans_id: "\<not> has_span xs \<Longrightarrow> replace_spans xs = xs"
  by (induction xs) (auto split: option.splits)

lemma has_span_append_left: "has_span t \<Longrightarrow> has_span (pre @ t)"
  by (induction pre) auto

lemma has_span_iff: "has_span s = contains_span s"
proof
  assume "has_span s"
  then show "contains_span s"
  proof (induction s)
    case Nil
    then show ?case by simp
  next
    case (Cons x xs)
    from Cons.prems consider
      (thick) "x = thick_open" "match_close thick_close xs \<noteq> None"
      | (square) "x = square_open" "match_close square_close xs \<noteq> None"
      | (later) "has_span xs" by auto
    then show ?case
    proof cases
      case thick
      then obtain r where "match_close thick_close xs = Some r" by auto
      from match_close_decomp [OF this] obtain mid where
        mid: "xs = mid @ thick_close # r" "\<forall>x \<in> set mid. \<not> is_line_terminator x" by blast
      then have "citation_span (thick_open # mid @ [thick_close])"
        unfolding citation_span_def by blast
      moreover have "x # xs = [] @ (thick_open # mid @ [thick_close]) @ r"
        using thick mid by simp
      ultimately show ?thesis unfolding contains_span_def by blast
    next
      case square
      then obtain r where "match_close square_close xs = Some r" by auto
      from match_close_decomp [OF this] obtain mid where
        mid: "xs = mid @ square_close # r" "\<forall>x \<in> set mid. \<not> is_line_terminator x" by blast
      then have "citation_span (square_open # mid @ [square_close])"
        unfolding citation_span_def by blast
      moreover have "x # xs = [] @ (square_open # mid @ [square_close]) @ r"
        using square mid by simp
      ultimately show ?thesis unfolding contains_span_def by blast
    next
      case later
      with Cons.IH obtain pre w post where "xs = pre @ w @ post" "citation_span w"
        unfolding contains_span_def by blast
      then have "x # xs = (x # pre) @ w @ post \<and> citation_span w" by simp
      then show ?thesis unfolding contains_span_def by blast
    qed
  qed
next
  assume "contains_span s"
  then obtain pre w post where s: "s = pre @ w @ post" and w: "citation_span w"
    unfolding contains_span_def by blast
  from w obtain mid where
    mid: "w = thick_open # mid @ [thick_close] \<or> w = square_open # mid @ [square_close]"
      "\<forall>c \<in> set mid. \<not> is_line_terminator c"
    unfolding citation_span_def by blast
  have "has_span (w @ post)"
    using mid match_close_append [OF mid(2)] by auto
  then show "has_span s" unfolding s by (rule has_span_append_left)
qed

lemma contains_span_sub: "contains_span t \<Longrightarrow> contains_span (a @ t @ b)"
proof -
  assume "contains_span t"
  then obtain pre w post where "t = pre @ w @ post" "citation_span w"
    unfolding contains_span_def by blast
  then have "a @ t @ b = (a @ pre) @ w @ (post @ b) \<and> citation_span w" by simp
  then show ?thesis unfolding contains_span_def by blast
qed

lemma trim_decomp:
  "dropWhile is_trim_space s =
     trim s @ rev (takeWhile is_trim_space (rev (dropWhile is_trim_space s)))"
proof -
  let ?t = "dropWhile is_trim_space s"
  have "rev (takeWhile is_trim_space (rev ?t) @ dropWhile is_trim_space (rev ?t)) = rev (rev ?t)"
    by (simp only: takeWhile_dropWhile_id)
  then have "rev (dropWhile is_trim_space (rev ?t)) @ rev (takeWhile is_trim_space (rev ?t)) = ?t"
    by (simp only: rev_append rev_rev_ident)
  then show ?thesis by (simp only: trim_def)
qed

lemma trim_sub: "\<exists>a b. s = a @ trim s @ b"
proof -
  have "s = takeWhile is_trim_space s @ dropWhile is_trim_space s" by simp
  then have "s = takeWhile is_trim_space s @ trim s
      @ rev (takeWhile is_trim_space (rev (dropWhile is_trim_space s)))"
    using trim_decomp [of s] by simp
  then show ?thesis by blast
qed

lemma trim_no_span: "\<not> has_span s \<Longrightarrow> \<not> has_span (trim s)"
proof
  assume ns: "\<not> has_span s" and "has_span (trim s)"
  then have c: "contains_span (trim s)" by (simp add: has_span_iff)
  obtain a b where "s = a @ trim s @ b" using trim_sub by blast
  with contains_span_sub [OF c, of a b] have "contains_span s" by simp
  with ns show False by (simp add: has_span_iff)
qed

lemma trim_idem: "trim (trim s) = trim s"
proof -
  let ?t = "dropWhile is_trim_space s"
  let ?u = "trim s"
  have u: "?u = rev (dropWhile is_trim_space (rev ?t))" by (simp add: trim_def)
  have t: "?t = ?u @ rev (takeWhile is_trim_space (rev ?t))"
    by (rule trim_decomp)
  have t0: "?t = [] \<or> \<not> is_trim_space (hd ?t)"
    by (metis dropWhile_eq_self_iff dropWhile_idem)
  have "?u = [] \<or> \<not> is_trim_space (hd ?u)"
  proof (cases "?u = []")
    case True
    then show ?thesis by simp
  next
    case False
    then have "hd ?t = hd ?u" using t by (metis hd_append2)
    moreover from False t have "?t \<noteq> []" by (metis append_is_Nil_conv)
    ultimately show ?thesis using t0 by metis
  qed
  then have d: "dropWhile is_trim_space ?u = ?u" by (simp add: dropWhile_eq_self_iff)
  have "trim ?u = rev (dropWhile is_trim_space (rev ?u))"
    by (subst trim_def) (simp only: d)
  also have "\<dots> = rev (dropWhile is_trim_space (dropWhile is_trim_space (rev ?t)))"
    by (simp add: u)
  also have "\<dots> = ?u" by (simp add: u)
  finally show ?thesis .
qed

lemmas sanitizer_eval =
  removeCitations_def trim_def js_of_def thick_open_def thick_close_def square_open_def
  square_close_def is_line_terminator_def is_trim_space_def

section \<open>The service: traces and loops\<close>

lemma get_run_Resolved:
  "run_status rem (count_list tr GetRun) = Resolved status \<Longrightarrow>
     get_run rem source tr = (tr @ [GetRun], Inr status)"
  by (simp add: get_run_def)

lemma get_run_Rejected:
  "run_status rem (count_list tr GetRun) = Rejected e \<Longrightarrow>
     get_run rem source tr =
       (tr @ [GetRun, LogError source (RequestError e)], Inl (RequestError e))"
  by (simp add: get_run_def logError_def)

lemma get_run_trace:
  "get_run rem SendMessage3 tr = (tr', r) \<Longrightarrow> \<exists>ext. tr' = tr @ ext \<and> (\<forall>ev \<in> set ext. poll_event ev)"
  by (auto simp: get_run_def logError_def poll_event_def split: response.splits)

lemma poll_run_post:
  assumes "poll_run rem tr status = Some y"
  shows "poll_post tr y"
proof (rule poll_run.raw_induct [where P = "\<lambda>rem tr status y. poll_post tr y", OF _ assms])
  fix poll_run' rem tr status y
  assume IH: "\<And>rem tr status y. poll_run' rem tr status = Some y \<Longrightarrow> poll_post tr y"
    and step: "(if pending status then
        (case get_run rem SendMessage3 (tr @ [Sleep 5000]) of
           (tr', Inl e) \<Rightarrow> Some (tr', Inl e)
         | (tr', Inr status') \<Rightarrow> poll_run' rem tr' status')
      else Some (tr, Inr status)) = Some y"
  show "poll_post tr y"
  proof (cases "pending status")
    case False
    with step have "y = (tr @ [], Inr status)" by simp
    with False show ?thesis unfolding poll_post_def by (metis empty_iff fst_conv list.set(1) snd_conv sum.inject(2))
  next
    case True
    obtain tr1 r1 where g: "get_run rem SendMessage3 (tr @ [Sleep 5000]) = (tr1, r1)"
      by (cases "get_run rem SendMessage3 (tr @ [Sleep 5000])")
    from get_run_trace [OF g] obtain ext1 where
      ext1: "tr1 = (tr @ [Sleep 5000]) @ ext1" "\<forall>ev \<in> set ext1. poll_event ev" by blast
    show ?thesis
    proof (cases r1)
      case (Inl e)
      with step True g have y: "y = (tr1, Inl e)" by auto
      with ext1 have "fst y = tr @ (Sleep 5000 # ext1)
          \<and> (\<forall>ev \<in> set (Sleep 5000 # ext1). poll_event ev)"
        by (simp add: poll_event_def)
      with y show ?thesis unfolding poll_post_def by (metis snd_conv sum.distinct(1))
    next
      case (Inr status')
      with step True g have "poll_run' rem tr1 status' = Some y" by auto
      from IH [OF this] obtain ext where
        ext: "fst y = tr1 @ ext" "\<forall>ev \<in> set ext. poll_event ev"
        and fin: "\<forall>final. snd y = Inr final \<longrightarrow> \<not> pending final"
        unfolding poll_post_def by blast
      from ext ext1 have "fst y = tr @ (Sleep 5000 # ext1 @ ext)
          \<and> (\<forall>ev \<in> set (Sleep 5000 # ext1 @ ext). poll_event ev)"
        by (auto simp: poll_event_def)
      with fin show ?thesis unfolding poll_post_def by blast
    qed
  qed
qed

lemma poll_run_trace:
  assumes "poll_run rem tr status = Some (tr', r)"
  shows "\<exists>ext. tr' = tr @ ext \<and> (\<forall>ev \<in> set ext. poll_event ev)"
  using poll_run_post [OF assms] by (simp add: poll_post_def)

lemma poll_run_final:
  assumes "poll_run rem tr status = Some (tr', Inr final)"
  shows "\<not> pending final"
  using poll_run_post [OF assms] by (simp add: poll_post_def)

lemma retrieve_loop_trace:
  "retrieve_loop rem rid attempt tr lastMessage = (tr', r) \<Longrightarrow>
     \<exists>ext. tr' = tr @ ext \<and> (\<forall>ev \<in> set ext. retrieve_event ev)"
proof (induction rem rid attempt tr lastMessage rule: retrieve_loop.induct)
  case (1 rem rid attempt tr lastMessage)
  show ?case
  proof (cases "attempt < retries")
    case False
    with "1.prems" have "tr' = tr @ []" by (simp add: retrieve_loop.simps)
    then show ?thesis by (metis empty_iff list.set(1))
  next
    case True
    show ?thesis
    proof (cases "list_messages rem (count_list tr ListMessages)")
      case (Rejected e)
      with True "1.prems" have "tr' = tr @ [ListMessages,
          LogError (SendMessageRetry (attempt + 1)) (RequestError e)]"
        by (simp add: retrieve_loop.simps logError_def)
      moreover have "\<forall>ev \<in> set [ListMessages,
          LogError (SendMessageRetry (attempt + 1)) (RequestError e)]. retrieve_event ev"
        by (simp add: retrieve_event_def)
      ultimately show ?thesis by blast
    next
      case (Resolved messageList)
      let ?lm = "pop (filter (matches rid) messageList)"
      show ?thesis
      proof (cases "answer_text ?lm")
        case (Inl e)
        with True Resolved "1.prems" have "tr' = tr @ [ListMessages,
            LogError (SendMessageRetry (attempt + 1)) e]"
          by (simp add: retrieve_loop.simps logError_def)
        moreover have "\<forall>ev \<in> set [ListMessages,
            LogError (SendMessageRetry (attempt + 1)) e]. retrieve_event ev"
          by (simp add: retrieve_event_def)
        ultimately show ?thesis by blast
      next
        case (Inr b)
        show ?thesis
        proof (cases b)
          case (Some v)
          with Inr True Resolved "1.prems" have "tr' = tr @ [ListMessages]"
            by (simp add: retrieve_loop.simps)
          moreover have "\<forall>ev \<in> set [ListMessages]. retrieve_event ev"
            by (simp add: retrieve_event_def)
          ultimately show ?thesis by blast
        next
          case None
          with Inr True Resolved "1.prems" have
            "retrieve_loop rem rid (attempt + 1) (tr @ [ListMessages, Sleep delay]) ?lm = (tr', r)"
            by (simp add: retrieve_loop.simps [of rem rid attempt])
          from "1.IH" [OF True Resolved refl Inr None this] obtain ext where
            "tr' = (tr @ [ListMessages, Sleep delay]) @ ext" "\<forall>ev \<in> set ext. retrieve_event ev"
            by blast
          then have "tr' = tr @ (ListMessages # Sleep delay # ext)
              \<and> (\<forall>ev \<in> set (ListMessages # Sleep delay # ext). retrieve_event ev)"
            by (simp add: retrieve_event_def)
          then show ?thesis by blast
        qed
      qed
    qed
  qed
qed

lemma count_poll_events:
  assumes "\<forall>ev \<in> set ext. poll_event ev"
  shows "count_list ext PostMessage = 0" "count_list ext CreateRun = 0"
    "count_list ext ListMessages = 0"
  using assms by (induction ext) (auto simp: poll_event_def)

lemma count_retrieve_events:
  assumes "\<forall>ev \<in> set ext. retrieve_event ev"
  shows "count_list ext PostMessage = 0" "count_list ext CreateRun = 0"
    "count_list ext GetRun = 0"
  using assms by (induction ext) (auto simp: retrieve_event_def)

lemma count_list_append: "count_list (xs @ ys) x = count_list xs x + count_list ys x"
  by (induction xs) auto

lemmas service_eval =
  sendMessage_def run_and_retrieve_def get_run_def logError_def falsy_def result_message_def
  strip_assistant_def pending_def matches_def pop_def retries_def delay_def js_of_def
  agent_reply_def retrieve_loop.simps

lemma sendMessage_after_poll:
  assumes "\<not> falsy message" "\<not> falsy threadId" "\<not> falsy assistantId"
    and "post_message rem = Resolved ()" and "create_run rem = Resolved rid"
    and "run_status rem 0 = Resolved status"
    and "poll_run rem [PostMessage, CreateRun, GetRun] status = Some (tr3, Inr final)"
  shows "sendMessage rem message threadId assistantId =
     (case result_message (retrieve_loop rem rid 0 tr3 None) of
        (tr, Inl e) \<Rightarrow> Some (logError SendMessage5 e tr)
      | (tr, Inr resultMessage) \<Rightarrow> Some (tr, Inr resultMessage))"
  using assms
  by (simp add: sendMessage_def run_and_retrieve_def get_run_def split: prod.splits sum.splits)

lemma result_message_trace: "fst (result_message (tr, r)) = tr"
  by (simp add: result_message_def split: sum.splits option.splits)

lemma poll_run_step:
  assumes "pending status" and "run_status rem (count_list tr GetRun) = Resolved status'"
  shows "poll_run rem tr status = poll_run rem (tr @ [Sleep 5000, GetRun]) status'"
  using assms by (subst poll_run.simps) (simp add: get_run_def)

lemma poll_run_stop: "\<not> pending status \<Longrightarrow> poll_run rem tr status = Some (tr, Inr status)"
  by (subst poll_run.simps) simp

lemma poll_run_reject:
  assumes "pending status" and "run_status rem (count_list tr GetRun) = Rejected e"
  shows "poll_run rem tr status =
     Some (tr @ [Sleep 5000, GetRun, LogError SendMessage3 (RequestError e)],
           Inl (RequestError e))"
  using assms by (subst poll_run.simps) (simp add: get_run_def logError_def)

lemma sendMessage_GetRun_count:
  assumes "\<not> falsy message" "\<not> falsy threadId" "\<not> falsy assistantId"
    and "post_message rem = Resolved ()" and "create_run rem = Resolved rid"
    and "run_status rem 0 = Resolved status"
    and "poll_run rem [PostMessage, CreateRun, GetRun] status = Some (tr3, Inr final)"
  shows "\<exists>tr r. sendMessage rem message threadId assistantId = Some (tr, r)
     \<and> count_list tr GetRun = count_list tr3 GetRun"
proof -
  obtain tr4 r4 where l: "retrieve_loop rem rid 0 tr3 None = (tr4, r4)"
    by (cases "retrieve_loop rem rid 0 tr3 None")
  from retrieve_loop_trace [OF l] obtain ext where
    ext: "tr4 = tr3 @ ext" "\<forall>ev \<in> set ext. retrieve_event ev" by blast
  then have c: "count_list tr4 GetRun = count_list tr3 GetRun"
    by (simp add: count_list_append count_retrieve_events)
  obtain tr5 r5 where m: "result_message (tr4, r4) = (tr5, r5)"
    by (cases "result_message (tr4, r4)")
  with result_message_trace [of tr4 r4] have t: "tr5 = tr4" by simp
  have s: "sendMessage rem message threadId assistantId =
     (case r5 of Inl e \<Rightarrow> Some (logError SendMessage5 e tr4)
      | Inr resultMessage \<Rightarrow> Some (tr4, Inr resultMessage))"
    using sendMessage_after_poll [OF assms] l m t by simp
  show ?thesis
  proof (cases r5)
    case (Inl e)
    with s c show ?thesis by (simp add: logError_def count_list_append)
  next
    case (Inr v)
    with s c show ?thesis by simp
  qed
qed

lemma poll_run_rejected_at:
  assumes "\<forall>i. count_list tr GetRun \<le> i \<and> i < k \<longrightarrow>
             (\<exists>s. run_status rem i = Resolved s \<and> pending s)"
    and "run_status rem k = Rejected e"
    and "count_list tr GetRun \<le> k"
    and "pending status"
  shows "poll_run rem tr status =
     Some (tr @ concat (replicate (k - count_list tr GetRun) [Sleep 5000, GetRun])
             @ [Sleep 5000, GetRun, LogError SendMessage3 (RequestError e)],
           Inl (RequestError e))"
  using assms
proof (induction "k - count_list tr GetRun" arbitrary: tr status)
  case 0
  then have "count_list tr GetRun = k" by simp
  with "0.prems" poll_run_reject [of status rem tr e] show ?case by simp
next
  case (Suc d)
  let ?n = "count_list tr GetRun"
  from Suc.hyps(2) have lt: "?n < k" by simp
  with Suc.prems(1) obtain s where s: "run_status rem ?n = Resolved s" "pending s" by blast
  let ?tr = "tr @ [Sleep 5000, GetRun]"
  have n': "count_list ?tr GetRun = Suc ?n" by (simp add: count_list_append)
  have step: "poll_run rem tr status = poll_run rem ?tr s"
    using poll_run_step [OF Suc.prems(4) s(1)] .
  have d: "d = k - count_list ?tr GetRun" using Suc.hyps(2) n' by simp
  have "poll_run rem ?tr s =
     Some (?tr @ concat (replicate (k - count_list ?tr GetRun) [Sleep 5000, GetRun])
             @ [Sleep 5000, GetRun, LogError SendMessage3 (RequestError e)],
           Inl (RequestError e))"
  proof (rule Suc.hyps(1) [OF d])
    show "\<forall>i. count_list ?tr GetRun \<le> i \<and> i < k \<longrightarrow>
             (\<exists>s. run_status rem i = Resolved s \<and> pending s)"
      using Suc.prems(1) n' by simp
    show "run_status rem k = Rejected e" by (rule Suc.prems(2))
    show "count_list ?tr GetRun \<le> k" using lt n' by simp
    show "pending s" by (rule s(2))
  qed
  moreover have "k - ?n = Suc (k - count_list ?tr GetRun)" using lt n' by simp
  ultimately show ?case using step by simp
qed

lemma poll_event_later: "poll_event ev \<Longrightarrow> ev \<noteq> PostMessage \<and> ev \<noteq> CreateRun"
  by (auto simp: poll_event_def)

lemma retrieve_event_later: "retrieve_event ev \<Longrightarrow> ev \<noteq> PostMessage \<and> ev \<noteq> CreateRun"
  by (auto simp: retrieve_event_def)

lemma run_and_retrieve_trace:
  assumes "run_and_retrieve rem tr = Some (tr', r)"
  shows "\<exists>ext. tr' = tr @ CreateRun # ext \<and> PostMessage \<notin> set ext \<and> CreateRun \<notin> set ext"
proof (cases "create_run rem")
  case (Rejected e)
  with assms have "tr' = tr @ CreateRun # []" by (simp add: run_and_retrieve_def)
  then show ?thesis by (metis empty_iff list.set(1))
next
  case (Resolved rid)
  obtain tr2 r2 where g: "get_run rem SendMessage2 (tr @ [CreateRun]) = (tr2, r2)"
    by (cases "get_run rem SendMessage2 (tr @ [CreateRun])")
  then obtain ext2 where ext2: "tr2 = tr @ CreateRun # ext2" "PostMessage \<notin> set ext2"
      "CreateRun \<notin> set ext2"
    by (auto simp: get_run_def logError_def split: response.splits)
  show ?thesis
  proof (cases r2)
    case (Inl e)
    with assms Resolved g have "tr' = tr2" by (simp add: run_and_retrieve_def)
    with ext2 show ?thesis by blast
  next
    case (Inr status)
    show ?thesis
    proof (cases "poll_run rem tr2 status")
      case None
      with assms Resolved g Inr show ?thesis by (simp add: run_and_retrieve_def)
    next
      case (Some y)
      obtain tr3 r3 where y: "y = (tr3, r3)" by (cases y)
      from poll_run_trace [OF Some [unfolded y]] obtain ext3 where
        ext3: "tr3 = tr2 @ ext3" "\<forall>ev \<in> set ext3. poll_event ev" by blast
      then have l3: "PostMessage \<notin> set ext3" "CreateRun \<notin> set ext3"
        using poll_event_later by blast+
      show ?thesis
      proof (cases r3)
        case (Inl e)
        with assms Resolved g Inr Some y have "tr' = tr3" by (simp add: run_and_retrieve_def)
        with ext2 ext3 l3 have "tr' = tr @ CreateRun # (ext2 @ ext3)
            \<and> PostMessage \<notin> set (ext2 @ ext3) \<and> CreateRun \<notin> set (ext2 @ ext3)"
          by simp
        then show ?thesis by blast
      next
        case (Inr final)
        obtain tr4 r4 where l: "retrieve_loop rem rid 0 tr3 None = (tr4, r4)"
          by (cases "retrieve_loop rem rid 0 tr3 None")
        from retrieve_loop_trace [OF l] obtain ext4 where
          ext4: "tr4 = tr3 @ ext4" "\<forall>ev \<in> set ext4. retrieve_event ev" by blast
        then have l4: "PostMessage \<notin> set ext4" "CreateRun \<notin> set ext4"
          using retrieve_event_later by blast+
        from assms Resolved g \<open>r2 = Inr status\<close> Some y Inr l
        have "(tr', r) = result_message (tr4, r4)" by (simp add: run_and_retrieve_def)
        with result_message_trace [of tr4 r4] have "tr' = tr4" by (metis fst_conv)
        with ext2 ext3 l3 ext4 l4 have "tr' = tr @ CreateRun # (ext2 @ ext3 @ ext4)
            \<and> PostMessage \<notin> set (ext2 @ ext3 @ ext4) \<and> CreateRun \<notin> set (ext2 @ ext3 @ ext4)"
          by simp
        then show ?thesis by blast
      qed
    qed
  qed
qed

lemma retrieve_loop_retry:
  assumes "attempt < retries"
    and "list_messages rem (count_list tr ListMessages) = Resolved messageList"
    and "answer_text (pop (filter (matches rid) messageList)) = Inr None"
  shows "retrieve_loop rem rid attempt tr lastMessage =
     retrieve_loop rem rid (attempt + 1) (tr @ [ListMessages, Sleep delay])
       (pop (filter (matches rid) messageList))"
  using assms by (subst retrieve_loop.simps) simp

lemma retrieve_loop_found:
  assumes "attempt < retries"
    and "list_messages rem (count_list tr ListMessages) = Resolved messageList"
    and "answer_text (pop (filter (matches rid) messageList)) = Inr (Some v)"
  shows "retrieve_loop rem rid attempt tr lastMessage =
     (tr @ [ListMessages], Inr (pop (filter (matches rid) messageList)))"
  using assms by (subst retrieve_loop.simps) simp

lemma retrieve_loop_done:
  "\<not> attempt < retries \<Longrightarrow> retrieve_loop rem rid attempt tr lastMessage = (tr, Inr lastMessage)"
  by (subst retrieve_loop.simps) simp

lemma retrieve_loop_exhausted:
  assumes "\<forall>i. count_list tr ListMessages \<le> i
              \<and> i < count_list tr ListMessages + (retries - attempt)
            \<longrightarrow> no_answer rid (list_messages rem i)"
    and "answer_text lastMessage = Inr None"
  shows "\<exists>lm. retrieve_loop rem rid attempt tr lastMessage =
       (tr @ concat (replicate (retries - attempt) [ListMessages, Sleep delay]), Inr lm)
     \<and> answer_text lm = Inr None"
  using assms
proof (induction "retries - attempt" arbitrary: attempt tr lastMessage)
  case 0
  then have "\<not> attempt < retries" by simp
  from retrieve_loop_done [OF this] "0.hyps" "0.prems"(2) show ?case by simp
next
  case (Suc d)
  let ?n = "count_list tr ListMessages"
  from Suc.hyps(2) have lt: "attempt < retries" by simp
  with Suc.prems(1) have "no_answer rid (list_messages rem ?n)" by simp
  then obtain messageList where
    ml: "list_messages rem ?n = Resolved messageList"
      "answer_text (pop (filter (matches rid) messageList)) = Inr None"
    by (auto simp: no_answer_def split: response.splits)
  let ?tr = "tr @ [ListMessages, Sleep delay]"
  let ?lm = "pop (filter (matches rid) messageList)"
  have n': "count_list ?tr ListMessages = Suc ?n" by (simp add: count_list_append)
  have d: "d = retries - (attempt + 1)" using Suc.hyps(2) by simp
  have "\<exists>lm. retrieve_loop rem rid (attempt + 1) ?tr ?lm =
       (?tr @ concat (replicate (retries - (attempt + 1)) [ListMessages, Sleep delay]), Inr lm)
     \<and> answer_text lm = Inr None"
  proof (rule Suc.hyps(1) [OF d])
    show "\<forall>i. count_list ?tr ListMessages \<le> i
              \<and> i < count_list ?tr ListMessages + (retries - (attempt + 1))
            \<longrightarrow> no_answer rid (list_messages rem i)"
    proof (intro allI impI)
      fix i
      assume "count_list ?tr ListMessages \<le> i
          \<and> i < count_list ?tr ListMessages + (retries - (attempt + 1))"
      with lt n' have "?n \<le> i \<and> i < ?n + (retries - attempt)" by arith
      with Suc.prems(1) show "no_answer rid (list_messages rem i)" by blast
    qed
    show "answer_text ?lm = Inr None" by (rule ml(2))
  qed
  moreover have "retries - attempt = Suc (retries - (attempt + 1))" using lt by simp
  ultimately show ?case using retrieve_loop_retry [OF lt ml, of lastMessage] by simp
qed

lemma retrieve_loop_found_at:
  assumes "attempt + k < retries"
    and "\<forall>i. count_list tr ListMessages \<le> i \<and> i < count_list tr ListMessages + k
            \<longrightarrow> no_answer rid (list_messages rem i)"
    and "list_messages rem (count_list tr ListMessages + k) = Resolved messageList"
    and "answer_text (pop (filter (matches rid) messageList)) = Inr (Some v)"
  shows "retrieve_loop rem rid attempt tr lastMessage =
       (tr @ concat (replicate k [ListMessages, Sleep delay]) @ [ListMessages],
        Inr (pop (filter (matches rid) messageList)))"
  using assms
proof (induction k arbitrary: attempt tr lastMessage)
  case 0
  then show ?case using retrieve_loop_found [of attempt rem tr messageList rid v] by simp
next
  case (Suc k)
  let ?n = "count_list tr ListMessages"
  from Suc.prems(1) have lt: "attempt < retries" by simp
  from Suc.prems(2) have "no_answer rid (list_messages rem ?n)" by simp
  then obtain ml0 where
    ml: "list_messages rem ?n = Resolved ml0"
      "answer_text (pop (filter (matches rid) ml0)) = Inr None"
    by (auto simp: no_answer_def split: response.splits)
  let ?tr = "tr @ [ListMessages, Sleep delay]"
  have n': "count_list ?tr ListMessages = Suc ?n" by (simp add: count_list_append)
  have "retrieve_loop rem rid (attempt + 1) ?tr (pop (filter (matches rid) ml0)) =
       (?tr @ concat (replicate k [ListMessages, Sleep delay]) @ [ListMessages],
        Inr (pop (filter (matches rid) messageList)))"
  proof (rule Suc.IH)
    show "attempt + 1 + k < retries" using Suc.prems(1) by simp
    show "\<forall>i. count_list ?tr ListMessages \<le> i \<and> i < count_list ?tr ListMessages + k
            \<longrightarrow> no_answer rid (list_messages rem i)"
      using Suc.prems(2) n' by simp
    show "list_messages rem (count_list ?tr ListMessages + k) = Resolved messageList"
      using Suc.prems(3) n' by simp
    show "answer_text (pop (filter (matches rid) messageList)) = Inr (Some v)"
      by (rule Suc.prems(4))
  qed
  then show ?case using retrieve_loop_retry [OF lt ml, of lastMessage] by simp
qed

lemma pop_filter_last:
  assumes "messageList = pre @ m # post" and "matches rid m"
    and "\<forall>x \<in> set post. \<not> matches rid x"
  shows "pop (filter (matches rid) messageList) = Some m"
  using assms by (simp add: pop_def filter_empty_conv)

lemma poll_run_no_listing:
  assumes "poll_run rem [PostMessage, CreateRun, GetRun] status = Some (tr3, r)"
  shows "count_list tr3 ListMessages = 0"
proof -
  from poll_run_trace [OF assms] obtain ext where
    "tr3 = [PostMessage, CreateRun, GetRun] @ ext" "\<forall>ev \<in> set ext. poll_event ev" by blast
  then show ?thesis by (simp add: count_list_append count_poll_events)
qed

lemma pending_settle [simp]: "pending (settle status) = pending status"
  by (simp add: settle_def pending_def)

lemma settle_pending: "pending status \<Longrightarrow> settle status = status"
  by (simp add: settle_def)









lemma js_includes_iff: "js_includes s pat = (\<exists>pre post. s = pre @ pat @ post)"
proof (induction s)
  case Nil
  then show ?case by auto
next
  case (Cons x xs)
  show ?case
  proof
    assume "js_includes (x # xs) pat"
    then consider (here) "take (length pat) (x # xs) = pat" | (later) "js_includes xs pat"
      by auto
    then show "\<exists>pre post. x # xs = pre @ pat @ post"
    proof cases
      case here
      then have "x # xs = [] @ pat @ drop (length pat) (x # xs)"
        by (metis append_Nil append_take_drop_id)
      then show ?thesis by blast
    next
      case later
      with Cons.IH obtain pre post where "xs = pre @ pat @ post" by blast
      then have "x # xs = (x # pre) @ pat @ post" by simp
      then show ?thesis by blast
    qed
  next
    assume "\<exists>pre post. x # xs = pre @ pat @ post"
    then obtain pre post where e: "x # xs = pre @ pat @ post" by blast
    show "js_includes (x # xs) pat"
    proof (cases pre)
      case Nil
      with e have "take (length pat) (x # xs) = pat" by simp
      then show ?thesis by simp
    next
      case (Cons p pre')
      with e have "xs = pre' @ pat @ post" by simp
      with Cons.IH have "js_includes xs pat" by blast
      then show ?thesis by simp
    qed
  qed
qed

lemma replace_first_at_first:
  assumes "s = pre @ pat @ post"
    and "\<forall>pre' post'. s = pre' @ pat @ post' \<longrightarrow> length pre \<le> length pre'"
  shows "replace_first s pat new = pre @ new @ post"
  using assms
proof (induction pre arbitrary: s)
  case Nil
  show ?case
  proof (cases s)
    case Nil
    with Nil.prems(1) show ?thesis by simp
  next
    case (Cons x xs)
    from Nil.prems(1) have "take (length pat) s = pat" "drop (length pat) s = post" by simp_all
    with Cons show ?thesis by simp
  qed
next
  case (Cons p pre)
  from Cons.prems(1) obtain rest where s: "s = p # rest" and rest: "rest = pre @ pat @ post"
    by simp
  have "take (length pat) s \<noteq> pat"
  proof
    assume "take (length pat) s = pat"
    then have "s = [] @ pat @ drop (length pat) s" by (metis append_Nil append_take_drop_id)
    with Cons.prems(2) have "length (p # pre) \<le> length ([] :: 'a list)" by blast
    then show False by simp
  qed
  with s have "replace_first s pat new = p # replace_first rest pat new" by simp
  moreover have "replace_first rest pat new = pre @ new @ post"
  proof (rule Cons.IH [OF rest])
    show "\<forall>pre' post'. rest = pre' @ pat @ post' \<longrightarrow> length pre \<le> length pre'"
    proof (intro allI impI)
      fix pre' post'
      assume "rest = pre' @ pat @ post'"
      with s have "s = (p # pre') @ pat @ post'" by simp
      with Cons.prems(2) have "length (p # pre) \<le> length (p # pre')" by blast
      then show "length pre \<le> length pre'" by simp
    qed
  qed
  ultimately show ?case by simp
qed

lemma retrieve_loop_source:
  "retrieve_loop rem rid attempt tr lastMessage = (tr', Inr lm) \<Longrightarrow>
     lm = lastMessage
     \<or> (\<exists>n messageList. list_messages rem n = Resolved messageList
           \<and> lm = pop (filter (matches rid) messageList))"
proof (induction rem rid attempt tr lastMessage rule: retrieve_loop.induct)
  case (1 rem rid attempt tr lastMessage)
  show ?case
  proof (cases "attempt < retries")
    case False
    with "1.prems" show ?thesis by (simp add: retrieve_loop_done)
  next
    case True
    show ?thesis
    proof (cases "list_messages rem (count_list tr ListMessages)")
      case (Rejected e)
      with True "1.prems" show ?thesis by (simp add: retrieve_loop.simps logError_def)
    next
      case (Resolved messageList)
      let ?lm = "pop (filter (matches rid) messageList)"
      show ?thesis
      proof (cases "answer_text ?lm")
        case (Inl e)
        with True Resolved "1.prems" show ?thesis
          by (simp add: retrieve_loop.simps logError_def)
      next
        case (Inr b)
        show ?thesis
        proof (cases b)
          case None
          with Inr True Resolved "1.prems" have
            "retrieve_loop rem rid (attempt + 1) (tr @ [ListMessages, Sleep delay]) ?lm
               = (tr', Inr lm)"
            using retrieve_loop_retry [OF True Resolved, of rid lastMessage] by simp
          from "1.IH" [OF True Resolved refl Inr None this] Resolved show ?thesis by blast
        next
          case (Some v)
          with Inr True Resolved "1.prems" have "lm = ?lm"
            using retrieve_loop_found [OF True Resolved, of rid v lastMessage] by simp
          with Resolved show ?thesis by blast
        qed
      qed
    qed
  qed
qed

lemma answer_text_Some:
  "answer_text lm = Inr (Some v) \<Longrightarrow>
     \<exists>m parts. lm = Some m \<and> content m = Some (TextPart v # parts) \<and> v \<noteq> []"
  by (cases lm)
    (auto split: option.splits list.splits content_part.splits if_splits)

lemma sendMessage_success:
  assumes "sendMessage rem message threadId assistantId = Some (tr, Inr out)"
  shows "\<exists>rid tr3 lm v. create_run rem = Resolved rid
     \<and> retrieve_loop rem rid 0 tr3 None = (tr, Inr lm)
     \<and> answer_text lm = Inr (Some v) \<and> out = strip_assistant v"
proof -
  from assms have rr: "run_and_retrieve rem [PostMessage] = Some (tr, Inr out)"
    by (auto simp: sendMessage_def logError_def split: if_splits response.splits option.splits
        sum.splits)
  then obtain rid where c: "create_run rem = Resolved rid"
    by (cases "create_run rem") (auto simp: run_and_retrieve_def)
  obtain tr2 r2 where g: "get_run rem SendMessage2 ([PostMessage] @ [CreateRun]) = (tr2, r2)"
    by (cases "get_run rem SendMessage2 ([PostMessage] @ [CreateRun])")
  with rr c obtain status where r2: "r2 = Inr status"
    by (cases r2) (auto simp: run_and_retrieve_def)
  from rr c g r2 obtain tr3 final where
    p: "poll_run rem tr2 status = Some (tr3, Inr final)"
    by (auto simp: run_and_retrieve_def split: option.splits sum.splits)
  obtain tr4 r4 where l: "retrieve_loop rem rid 0 tr3 None = (tr4, r4)"
    by (cases "retrieve_loop rem rid 0 tr3 None")
  from rr c g r2 p l have m: "result_message (tr4, r4) = (tr, Inr out)"
    by (simp add: run_and_retrieve_def)
  then obtain lm v where "r4 = Inr lm" "answer_text lm = Inr (Some v)" "tr = tr4"
    "out = strip_assistant v"
    by (auto simp: result_message_def split: sum.splits option.splits)
  with c l show ?thesis by blast
qed









section \<open>Claims on the sanitizer\<close>

text \<open>
  C7, as amended: the output of \<^verbatim>\<open>removeCitations\<close> contains no citation span that lies
  on one line, that is no thick-bracket pair and no square-bracket pair enclosing
  characters other than line terminators (what the pattern of the source matches); so the
  text a successful \<^verbatim>\<open>sendMessageToAgent\<close> replies with contains none either.
\<close>

theorem removeCitations_no_citation_span:
  "\<not> contains_span (removeCitations text)
   \<and> (agent_reply rem message thread_id assistant_id = Some (tr, Inr out)
        \<longrightarrow> \<not> contains_span out)"
proof -
  have clean: "\<not> contains_span (removeCitations t)" for t
  proof (cases t)
    case None
    then show ?thesis by (simp add: removeCitations_def flip: has_span_iff)
  next
    case (Some u)
    have "\<not> has_span (trim (replace_spans u))"
      using replace_spans_no_span by (rule trim_no_span)
    with Some show ?thesis by (simp add: removeCitations_def flip: has_span_iff)
  qed
  have "\<not> contains_span out"
    if "agent_reply rem message thread_id assistant_id = Some (tr, Inr out)"
  proof -
    from that obtain v where "out = removeCitations (Some v)"
      by (auto simp: agent_reply_def split: option.splits sum.splits)
    then show ?thesis by (simp add: clean)
  qed
  with clean show ?thesis by blast
qed

text \<open>
  C7, witness: the example of the source's comment, with two square-bracket references
  added; and a reply of \<^verbatim>\<open>sendMessageToAgent\<close>.
\<close>

theorem removeCitations_no_citation_span_witness:
  "\<not> contains_span (js_of ''I studied at X, see  and .'')
   \<and> agent_reply remote_ok (Some (js_of ''hello'')) (Some ''thread_1'') (Some ''asst_1'')
       = Some ([PostMessage, CreateRun, GetRun, ListMessages], Inr (js_of ''hi''))
   \<and> \<not> contains_span (js_of ''hi'')"
proof -
  have 1: "removeCitations (Some (js_of ''  I studied at X'' @ thick_open # js_of ''114:0''
          @ thick_close # js_of '', see [1] and [23]. ''))
        = js_of ''I studied at X, see  and .''"
    by (simp add: sanitizer_eval)
  have 2: "agent_reply remote_ok (Some (js_of ''hello'')) (Some ''thread_1'') (Some ''asst_1'')
       = Some ([PostMessage, CreateRun, GetRun, ListMessages], Inr (js_of ''hi''))"
    by (simp add: service_eval sanitizer_eval remote_ok_def poll_run.simps)
  from removeCitations_no_citation_span
      [of "Some (js_of ''  I studied at X'' @ thick_open # js_of ''114:0''
          @ thick_close # js_of '', see [1] and [23]. '')"
        remote_ok "Some (js_of ''hello'')" "Some ''thread_1''" "Some ''asst_1''"
        "[PostMessage, CreateRun, GetRun, ListMessages]" "js_of ''hi''"]
  show ?thesis using 1 2 by simp
qed

text \<open>
  C7, counterexample to the claim as stated: in the text made of an opening square
  bracket, a line feed and a closing square bracket the pattern has no match, since its
  \<^verbatim>\<open>.\<close> stops at line terminators; the output is the input, a square-bracket pair.
\<close>

theorem removeCitations_multiline_pair_counterexample:
  "removeCitations (Some [square_open, 0x0A, square_close]) = [square_open, 0x0A, square_close]
   \<and> contains_bracket_pair (removeCitations (Some [square_open, 0x0A, square_close]))"
proof -
  have e: "removeCitations (Some [square_open, 0x0A, square_close])
      = [square_open, 0x0A, square_close]"
    by (simp add: sanitizer_eval)
  have "bracket_pair (square_open # [0x0A] @ [square_close])"
    unfolding bracket_pair_def by blast
  then have "contains_bracket_pair ([] @ (square_open # [0x0A] @ [square_close]) @ [])"
    unfolding contains_bracket_pair_def by blast
  with e show ?thesis by simp
qed

text \<open>
  C8: \<^verbatim>\<open>removeCitations\<close> is idempotent: applied to its own output it returns that
  output.
\<close>

theorem removeCitations_idempotent:
  "removeCitations (Some (removeCitations text)) = removeCitations text"
proof (cases "text")
  case None
  then show ?thesis by (simp add: removeCitations_def)
next
  case (Some t)
  let ?r = "trim (replace_spans t)"
  have "\<not> has_span ?r" using replace_spans_no_span by (rule trim_no_span)
  then have "replace_spans ?r = ?r" by (rule replace_spans_id)
  then have "trim (replace_spans ?r) = ?r" by (simp add: trim_idem)
  with Some show ?thesis by (simp add: removeCitations_def)
qed

text \<open>C8, at a text with a reference between two words.\<close>

theorem removeCitations_idempotent_witness:
  "removeCitations (Some (js_of ''a  b'')) = js_of ''a  b''
   \<and> removeCitations (Some (js_of '' a [1] b '')) = js_of ''a  b''"
proof -
  have "removeCitations (Some (js_of '' a [1] b '')) = js_of ''a  b''"
    by (simp add: sanitizer_eval)
  then show ?thesis
    using removeCitations_idempotent [of "Some (js_of '' a [1] b '')"] by simp
qed

section \<open>Claims on the service\<close>

text \<open>
  C2: when one of the three arguments is falsy, \<^verbatim>\<open>sendMessage\<close> throws its
  invalid-payload error, and its trace is empty: no remote call was made.
\<close>

theorem sendMessage_invalid_payload:
  assumes "falsy message \<or> falsy threadId \<or> falsy assistantId"
  shows "sendMessage rem message threadId assistantId = Some ([], Inl InvalidPayload)"
  using assms by (simp add: sendMessage_def)

text \<open>
  C2, witness: an empty message is refused with an empty trace, where the same call with
  a message goes through.
\<close>

theorem sendMessage_invalid_payload_witness:
  "falsy (Some ([] :: js_string))
   \<and> sendMessage remote_ok (Some []) (Some ''thread_1'') (Some ''asst_1'')
       = Some ([], Inl InvalidPayload)
   \<and> sendMessage remote_ok (Some (js_of ''hello'')) (Some ''thread_1'') (Some ''asst_1'')
       = Some ([PostMessage, CreateRun, GetRun, ListMessages], Inr (js_of '' hi [1]''))"
proof -
  have f: "falsy (Some ([] :: js_string))" by (simp add: falsy_def)
  then have "falsy (Some ([] :: js_string)) \<or> falsy (Some ''thread_1'') \<or> falsy (Some ''asst_1'')"
    by simp
  from sendMessage_invalid_payload [OF this, of remote_ok] f
  show ?thesis by (simp add: service_eval remote_ok_def poll_run.simps)
qed

text \<open>
  C4: when the successive fetches of the run answer queued, in progress, in progress,
  completed, the polling loop ends with the status completed after the fourth fetch, and
  the whole call makes exactly four fetches of the run.
\<close>

theorem four_status_fetches:
  assumes "\<not> falsy message" "\<not> falsy threadId" "\<not> falsy assistantId"
    and "post_message rem = Resolved ()" and "create_run rem = Resolved rid"
    and "run_status rem 0 = Resolved ''queued''"
    and "run_status rem 1 = Resolved ''in_progress''"
    and "run_status rem 2 = Resolved ''in_progress''"
    and "run_status rem 3 = Resolved ''completed''"
  shows "poll_run rem [PostMessage, CreateRun, GetRun] ''queued'' =
       Some ([PostMessage, CreateRun, GetRun, Sleep 5000, GetRun, Sleep 5000, GetRun,
              Sleep 5000, GetRun], Inr ''completed'')
     \<and> (\<exists>tr r. sendMessage rem message threadId assistantId = Some (tr, r)
          \<and> count_list tr GetRun = 4)"
proof -
  have 1: "poll_run rem [PostMessage, CreateRun, GetRun] ''queued'' =
      poll_run rem [PostMessage, CreateRun, GetRun, Sleep 5000, GetRun] ''in_progress''"
    using poll_run_step [of "''queued''" rem "[PostMessage, CreateRun, GetRun]"] assms(7)
    by (simp add: pending_def numeral_2_eq_2 numeral_3_eq_3)
  have 2: "poll_run rem [PostMessage, CreateRun, GetRun, Sleep 5000, GetRun] ''in_progress'' =
      poll_run rem [PostMessage, CreateRun, GetRun, Sleep 5000, GetRun, Sleep 5000, GetRun]
        ''in_progress''"
    using poll_run_step [of "''in_progress''" rem
        "[PostMessage, CreateRun, GetRun, Sleep 5000, GetRun]"] assms(8)
    by (simp add: pending_def numeral_2_eq_2 numeral_3_eq_3)
  have 3: "poll_run rem [PostMessage, CreateRun, GetRun, Sleep 5000, GetRun, Sleep 5000, GetRun]
        ''in_progress'' =
      poll_run rem [PostMessage, CreateRun, GetRun, Sleep 5000, GetRun, Sleep 5000, GetRun,
        Sleep 5000, GetRun] ''completed''"
    using poll_run_step [of "''in_progress''" rem
        "[PostMessage, CreateRun, GetRun, Sleep 5000, GetRun, Sleep 5000, GetRun]"] assms(9)
    by (simp add: pending_def numeral_2_eq_2 numeral_3_eq_3)
  have 4: "poll_run rem [PostMessage, CreateRun, GetRun, Sleep 5000, GetRun, Sleep 5000, GetRun,
        Sleep 5000, GetRun] ''completed'' =
      Some ([PostMessage, CreateRun, GetRun, Sleep 5000, GetRun, Sleep 5000, GetRun,
        Sleep 5000, GetRun], Inr ''completed'')"
    by (rule poll_run_stop) (simp add: pending_def)
  from 1 2 3 4 have p: "poll_run rem [PostMessage, CreateRun, GetRun] ''queued'' =
       Some ([PostMessage, CreateRun, GetRun, Sleep 5000, GetRun, Sleep 5000, GetRun,
              Sleep 5000, GetRun], Inr ''completed'')"
    by simp
  have "count_list [PostMessage, CreateRun, GetRun, Sleep 5000, GetRun, Sleep 5000, GetRun,
      Sleep 5000, GetRun] GetRun = 4"
    by simp
  with sendMessage_GetRun_count [OF assms(1-6) p]
  have "\<exists>tr r. sendMessage rem message threadId assistantId = Some (tr, r)
      \<and> count_list tr GetRun = 4"
    by (simp only:)
  with p show ?thesis by blast
qed

text \<open>C4, witness: the scripted remote, where a fifth fetch would be rejected.\<close>

theorem four_status_fetches_witness:
  "sendMessage remote_scripted (Some (js_of ''hello'')) (Some ''thread_1'') (Some ''asst_1'') =
     Some ([PostMessage, CreateRun, GetRun, Sleep 5000, GetRun, Sleep 5000, GetRun,
            Sleep 5000, GetRun, ListMessages], Inr (js_of ''hi''))
   \<and> count_list [PostMessage, CreateRun, GetRun, Sleep 5000, GetRun, Sleep 5000, GetRun,
            Sleep 5000, GetRun, ListMessages] GetRun = 4"
proof -
  have e: "sendMessage remote_scripted (Some (js_of ''hello'')) (Some ''thread_1'')
      (Some ''asst_1'') =
     Some ([PostMessage, CreateRun, GetRun, Sleep 5000, GetRun, Sleep 5000, GetRun,
            Sleep 5000, GetRun, ListMessages], Inr (js_of ''hi''))"
    by (simp add: service_eval remote_scripted_def poll_run.simps)
  have "\<exists>tr r. sendMessage remote_scripted (Some (js_of ''hello'')) (Some ''thread_1'')
      (Some ''asst_1'') = Some (tr, r) \<and> count_list tr GetRun = 4"
    using four_status_fetches [of "Some (js_of ''hello'')" "Some ''thread_1''" "Some ''asst_1''"
        remote_scripted "''run_1''"]
    by (simp add: remote_scripted_def falsy_def js_of_def)
  with e show ?thesis by simp
qed

text \<open>
  C3, as amended: a fetch of the run that is rejected inside the polling loop ends the
  call. The rejection is logged under the labels of the loop and of the outer
  \<^verbatim>\<open>catch\<close> and thrown to the caller; no fetch follows it, and the retrieval loop does
  not run.
\<close>

theorem poll_fetch_failure_is_terminal:
  assumes "\<not> falsy message" "\<not> falsy threadId" "\<not> falsy assistantId"
    and "post_message rem = Resolved ()" and "create_run rem = Resolved rid"
    and "0 < k"
    and "\<forall>i < k. \<exists>s. run_status rem i = Resolved s \<and> pending s"
    and "run_status rem k = Rejected e"
  shows "sendMessage rem message threadId assistantId =
     Some ([PostMessage, CreateRun, GetRun] @ concat (replicate (k - 1) [Sleep 5000, GetRun])
             @ [Sleep 5000, GetRun, LogError SendMessage3 (RequestError e),
                LogError SendMessage5 (RequestError e)],
           Inl (RequestError e))"
proof -
  from assms(6,7) obtain s0 where s0: "run_status rem 0 = Resolved s0" "pending s0" by blast
  let ?tr = "[PostMessage, CreateRun, GetRun]"
  have c: "count_list ?tr GetRun = 1" by simp
  have "poll_run rem ?tr s0 =
     Some (?tr @ concat (replicate (k - count_list ?tr GetRun) [Sleep 5000, GetRun])
             @ [Sleep 5000, GetRun, LogError SendMessage3 (RequestError e)],
           Inl (RequestError e))"
  proof (rule poll_run_rejected_at)
    show "\<forall>i. count_list ?tr GetRun \<le> i \<and> i < k \<longrightarrow>
             (\<exists>s. run_status rem i = Resolved s \<and> pending s)"
      using assms(7) by simp
    show "run_status rem k = Rejected e" by (rule assms(8))
    show "count_list ?tr GetRun \<le> k" using assms(6) by simp
    show "pending s0" by (rule s0(2))
  qed
  then have p: "poll_run rem ?tr s0 =
     Some (?tr @ concat (replicate (k - 1) [Sleep 5000, GetRun])
             @ [Sleep 5000, GetRun, LogError SendMessage3 (RequestError e)],
           Inl (RequestError e))"
    by (simp only: c)
  show ?thesis
    using assms(1-5) s0(1) p
    by (simp add: sendMessage_def run_and_retrieve_def get_run_def logError_def)
qed

text \<open>C3, witness: the second fetch is rejected.\<close>

theorem poll_fetch_failure_is_terminal_witness:
  "sendMessage remote_fetch_fails_once (Some (js_of ''hello'')) (Some ''thread_1'')
     (Some ''asst_1'') =
   Some ([PostMessage, CreateRun, GetRun, Sleep 5000, GetRun,
          LogError SendMessage3 (RequestError 7), LogError SendMessage5 (RequestError 7)],
         Inl (RequestError 7))"
  using poll_fetch_failure_is_terminal [of "Some (js_of ''hello'')" "Some ''thread_1''"
      "Some ''asst_1''" remote_fetch_fails_once "''run_1''" 1 7]
  by (simp add: remote_fetch_fails_once_def falsy_def js_of_def pending_def)

text \<open>
  C3, counterexample to the claim as stated: the second fetch is rejected and a third
  would answer completed, yet the trace holds two fetches only and the call throws the
  rejection.
\<close>

theorem poll_fetch_not_retried_counterexample:
  "run_status remote_fetch_fails_once 1 = Rejected 7
   \<and> run_status remote_fetch_fails_once 2 = Resolved ''completed''
   \<and> sendMessage remote_fetch_fails_once (Some (js_of ''hello'')) (Some ''thread_1'')
       (Some ''asst_1'') =
     Some ([PostMessage, CreateRun, GetRun, Sleep 5000, GetRun,
            LogError SendMessage3 (RequestError 7), LogError SendMessage5 (RequestError 7)],
           Inl (RequestError 7))"
  by (simp add: service_eval remote_fetch_fails_once_def poll_run.simps)

text \<open>
  C9, as amended: the run is created only after the post of the user message has
  succeeded. A rejected post is logged and thrown, and ends the call before any other
  remote call; a trace that holds the creation of the run starts with the post and the
  creation, each made once, and the post was resolved.
\<close>

theorem job_started_only_after_successful_post:
  assumes "\<not> falsy message" "\<not> falsy threadId" "\<not> falsy assistantId"
  shows "(post_message rem = Rejected e \<longrightarrow>
            sendMessage rem message threadId assistantId =
              Some ([PostMessage, LogError SendMessage1 (RequestError e)], Inl (RequestError e)))
     \<and> (sendMessage rem message threadId assistantId = Some (tr, r) \<longrightarrow> CreateRun \<in> set tr \<longrightarrow>
            post_message rem = Resolved ()
            \<and> (\<exists>ext. tr = PostMessage # CreateRun # ext
                  \<and> PostMessage \<notin> set ext \<and> CreateRun \<notin> set ext))"
proof (intro conjI impI)
  assume "post_message rem = Rejected e"
  with assms show "sendMessage rem message threadId assistantId =
      Some ([PostMessage, LogError SendMessage1 (RequestError e)], Inl (RequestError e))"
    by (simp add: sendMessage_def logError_def)
next
  assume s: "sendMessage rem message threadId assistantId = Some (tr, r)"
    and c: "CreateRun \<in> set tr"
  have ok: "post_message rem = Resolved ()"
  proof (cases "post_message rem")
    case (Rejected e')
    with assms s have "tr = [PostMessage, LogError SendMessage1 (RequestError e')]"
      by (simp add: sendMessage_def logError_def)
    with c show ?thesis by simp
  next
    case (Resolved u)
    then show ?thesis by simp
  qed
  then show "post_message rem = Resolved ()" .
  from ok assms s obtain tr0 r0 where
    rr: "run_and_retrieve rem [PostMessage] = Some (tr0, r0)"
    and tr: "tr = tr0 \<or> (\<exists>e'. tr = tr0 @ [LogError SendMessage5 e'])"
    by (auto simp: sendMessage_def logError_def split: option.splits sum.splits)
  from run_and_retrieve_trace [OF rr] obtain ext0 where
    ext0: "tr0 = [PostMessage] @ CreateRun # ext0" "PostMessage \<notin> set ext0"
      "CreateRun \<notin> set ext0" by blast
  from tr show "\<exists>ext. tr = PostMessage # CreateRun # ext
      \<and> PostMessage \<notin> set ext \<and> CreateRun \<notin> set ext"
  proof
    assume "tr = tr0"
    with ext0 show ?thesis by simp
  next
    assume "\<exists>e'. tr = tr0 @ [LogError SendMessage5 e']"
    then obtain e' where "tr = tr0 @ [LogError SendMessage5 e']" by blast
    with ext0 have "tr = PostMessage # CreateRun # (ext0 @ [LogError SendMessage5 e'])
        \<and> PostMessage \<notin> set (ext0 @ [LogError SendMessage5 e'])
        \<and> CreateRun \<notin> set (ext0 @ [LogError SendMessage5 e'])"
      by simp
    then show ?thesis by blast
  qed
qed

text \<open>C9, witness: a rejected post, and a call that goes through.\<close>

theorem job_started_only_after_successful_post_witness:
  "sendMessage remote_post_fails (Some (js_of ''hello'')) (Some ''thread_1'') (Some ''asst_1'')
     = Some ([PostMessage, LogError SendMessage1 (RequestError 3)], Inl (RequestError 3))
   \<and> sendMessage remote_ok (Some (js_of ''hello'')) (Some ''thread_1'') (Some ''asst_1'')
     = Some ([PostMessage, CreateRun, GetRun, ListMessages], Inr (js_of '' hi [1]''))
   \<and> CreateRun \<in> set [PostMessage, CreateRun, GetRun, ListMessages]
   \<and> post_message remote_ok = Resolved ()"
proof -
  have args: "\<not> falsy (Some (js_of ''hello''))" "\<not> falsy (Some ''thread_1'')"
    "\<not> falsy (Some ''asst_1'')"
    by (simp_all add: falsy_def js_of_def)
  have ok: "sendMessage remote_ok (Some (js_of ''hello'')) (Some ''thread_1'') (Some ''asst_1'')
     = Some ([PostMessage, CreateRun, GetRun, ListMessages], Inr (js_of '' hi [1]''))"
    by (simp add: service_eval remote_ok_def poll_run.simps)
  have "post_message remote_post_fails = Rejected 3" by (simp add: remote_post_fails_def)
  with job_started_only_after_successful_post [OF args, of remote_post_fails 3]
  have 1: "sendMessage remote_post_fails (Some (js_of ''hello'')) (Some ''thread_1'')
      (Some ''asst_1'')
     = Some ([PostMessage, LogError SendMessage1 (RequestError 3)], Inl (RequestError 3))"
    by blast
  from job_started_only_after_successful_post [OF args, of remote_ok 0
      "[PostMessage, CreateRun, GetRun, ListMessages]" "Inr (js_of '' hi [1]'')"] ok
  have 2: "post_message remote_ok = Resolved ()"
    by simp
  from 1 2 ok show ?thesis by simp
qed

text \<open>
  C9, counterexample to the claim as stated: after a rejected post the run is not
  created.
\<close>

theorem job_not_started_after_failed_post_counterexample:
  "post_message remote_post_fails = Rejected 3
   \<and> sendMessage remote_post_fails (Some (js_of ''hello'')) (Some ''thread_1'') (Some ''asst_1'')
     = Some ([PostMessage, LogError SendMessage1 (RequestError 3)], Inl (RequestError 3))
   \<and> CreateRun \<notin> set [PostMessage, LogError SendMessage1 (RequestError 3)]"
  by (simp add: service_eval remote_post_fails_def)

text \<open>
  C5, as amended: when the polling loop has ended and each of the five listings is
  resolved with a list whose last assistant message of the run is missing or has no text
  (without being malformed), the retrieval loop makes exactly five listings, each
  followed by the wait of 5000 ms, and the call throws the failed-retrieval error, which
  the outer \<^verbatim>\<open>catch\<close> logs.
\<close>

theorem retrieval_exhausted:
  assumes "\<not> falsy message" "\<not> falsy threadId" "\<not> falsy assistantId"
    and "post_message rem = Resolved ()" and "create_run rem = Resolved rid"
    and "run_status rem 0 = Resolved status"
    and "poll_run rem [PostMessage, CreateRun, GetRun] status = Some (tr3, Inr final)"
    and "\<forall>i < 5. no_answer rid (list_messages rem i)"
  shows "sendMessage rem message threadId assistantId =
     Some (tr3 @ concat (replicate 5 [ListMessages, Sleep 5000])
             @ [LogError SendMessage5 RetrieveFailed],
           Inl RetrieveFailed)"
proof -
  have n: "count_list tr3 ListMessages = 0" using assms(7) by (rule poll_run_no_listing)
  have "\<exists>lm. retrieve_loop rem rid 0 tr3 None =
       (tr3 @ concat (replicate (retries - 0) [ListMessages, Sleep delay]), Inr lm)
     \<and> answer_text lm = Inr None"
  proof (rule retrieve_loop_exhausted)
    show "\<forall>i. count_list tr3 ListMessages \<le> i
              \<and> i < count_list tr3 ListMessages + (retries - 0)
            \<longrightarrow> no_answer rid (list_messages rem i)"
      using assms(8) n by (simp add: retries_def)
    show "answer_text None = Inr None" by simp
  qed
  then obtain lm where
    l: "retrieve_loop rem rid 0 tr3 None =
         (tr3 @ concat (replicate 5 [ListMessages, Sleep 5000]), Inr lm)"
    and a: "answer_text lm = Inr None"
    by (auto simp: retries_def delay_def)
  have "result_message (retrieve_loop rem rid 0 tr3 None) =
      (tr3 @ concat (replicate 5 [ListMessages, Sleep 5000]), Inl RetrieveFailed)"
    unfolding l using a by (simp add: result_message_def)
  with sendMessage_after_poll [OF assms(1-7)] show ?thesis
    by (simp add: logError_def)
qed

text \<open>C5, witness: the thread holds a user message and an answer to an earlier run.\<close>

theorem retrieval_exhausted_witness:
  "sendMessage remote_no_answer (Some (js_of ''hello'')) (Some ''thread_1'') (Some ''asst_1'') =
     Some ([PostMessage, CreateRun, GetRun,
            ListMessages, Sleep 5000, ListMessages, Sleep 5000, ListMessages, Sleep 5000,
            ListMessages, Sleep 5000, ListMessages, Sleep 5000,
            LogError SendMessage5 RetrieveFailed],
           Inl RetrieveFailed)"
proof -
  have p: "poll_run remote_no_answer [PostMessage, CreateRun, GetRun] ''completed'' =
      Some ([PostMessage, CreateRun, GetRun], Inr ''completed'')"
    by (rule poll_run_stop) (simp add: pending_def)
  have r: "concat (replicate 5 [ListMessages, Sleep 5000]) =
      [ListMessages, Sleep 5000, ListMessages, Sleep 5000, ListMessages, Sleep 5000,
       ListMessages, Sleep 5000, ListMessages, Sleep 5000]"
    by (simp add: numeral_eq_Suc)
  have "sendMessage remote_no_answer (Some (js_of ''hello'')) (Some ''thread_1'')
       (Some ''asst_1'') =
     Some ([PostMessage, CreateRun, GetRun] @ concat (replicate 5 [ListMessages, Sleep 5000])
             @ [LogError SendMessage5 RetrieveFailed],
           Inl RetrieveFailed)"
  proof (rule retrieval_exhausted [where rid = "''run_1''" and status = "''completed''"
        and final = "''completed''"])
    show "\<not> falsy (Some (js_of ''hello''))" "\<not> falsy (Some ''thread_1'')"
      "\<not> falsy (Some ''asst_1'')"
      by (simp_all add: falsy_def js_of_def)
    show "post_message remote_no_answer = Resolved ()"
      "create_run remote_no_answer = Resolved ''run_1''"
      "run_status remote_no_answer 0 = Resolved ''completed''"
      by (simp_all add: remote_no_answer_def)
    show "poll_run remote_no_answer [PostMessage, CreateRun, GetRun] ''completed'' =
      Some ([PostMessage, CreateRun, GetRun], Inr ''completed'')" by (rule p)
    show "\<forall>i < 5. no_answer ''run_1'' (list_messages remote_no_answer i)"
      by (simp add: no_answer_def remote_no_answer_def matches_def pop_def)
  qed
  then show ?thesis unfolding r by simp
qed

text \<open>
  C5, counterexample to the claim as stated: no attempt yields an answer, yet the loop
  stops at the first attempt, with the rejection of the listing in one case and with a
  \<^verbatim>\<open>TypeError\<close> in the other (the assistant message of the run has an empty content
  array), and not with the failed-retrieval error.
\<close>

theorem retrieval_cut_short_counterexample:
  "sendMessage remote_list_rejected (Some (js_of ''hello'')) (Some ''thread_1'')
       (Some ''asst_1'') =
     Some ([PostMessage, CreateRun, GetRun, ListMessages,
            LogError (SendMessageRetry 1) (RequestError 9),
            LogError SendMessage5 (RequestError 9)],
           Inl (RequestError 9))
   \<and> sendMessage remote_empty_content (Some (js_of ''hello'')) (Some ''thread_1'')
       (Some ''asst_1'') =
     Some ([PostMessage, CreateRun, GetRun, ListMessages,
            LogError (SendMessageRetry 1) TypeError, LogError SendMessage5 TypeError],
           Inl TypeError)"
  by (simp add: service_eval remote_list_rejected_def remote_empty_content_def poll_run.simps)

text \<open>
  C6, as amended: on the first attempt (of the five) whose listing has, as its last
  message with role assistant and the run's id, a message whose first content part is a
  non-empty text, the earlier listings having been resolved without an answer, the
  retrieval loop ends with that message: the trace holds no listing and no wait after
  it, and \<^verbatim>\<open>sendMessage\<close> returns its text (less the assistant prefix).
\<close>

theorem retrieval_returns_last_matching:
  assumes "\<not> falsy message" "\<not> falsy threadId" "\<not> falsy assistantId"
    and "post_message rem = Resolved ()" and "create_run rem = Resolved rid"
    and "run_status rem 0 = Resolved status"
    and "poll_run rem [PostMessage, CreateRun, GetRun] status = Some (tr3, Inr final)"
    and "k < 5"
    and "\<forall>i < k. no_answer rid (list_messages rem i)"
    and "list_messages rem k = Resolved (pre @ m # post)"
    and "matches rid m" and "\<forall>x \<in> set post. \<not> matches rid x"
    and "content m = Some (TextPart v # parts)" and "v \<noteq> []"
  shows "retrieve_loop rem rid 0 tr3 None =
       (tr3 @ concat (replicate k [ListMessages, Sleep 5000]) @ [ListMessages], Inr (Some m))
     \<and> sendMessage rem message threadId assistantId =
       Some (tr3 @ concat (replicate k [ListMessages, Sleep 5000]) @ [ListMessages],
             Inr (strip_assistant v))"
proof -
  have n: "count_list tr3 ListMessages = 0" using assms(7) by (rule poll_run_no_listing)
  have last: "pop (filter (matches rid) (pre @ m # post)) = Some m"
    using assms(11,12) by (rule pop_filter_last [OF refl])
  have tv: "answer_text (Some m) = Inr (Some v)" using assms(13,14) by simp
  have "retrieve_loop rem rid 0 tr3 None =
       (tr3 @ concat (replicate k [ListMessages, Sleep delay]) @ [ListMessages],
        Inr (pop (filter (matches rid) (pre @ m # post))))"
  proof (rule retrieve_loop_found_at)
    show "0 + k < retries" using assms(8) by (simp add: retries_def)
    show "\<forall>i. count_list tr3 ListMessages \<le> i \<and> i < count_list tr3 ListMessages + k
            \<longrightarrow> no_answer rid (list_messages rem i)"
      using assms(9) n by simp
    show "list_messages rem (count_list tr3 ListMessages + k) = Resolved (pre @ m # post)"
      using assms(10) n by simp
    show "answer_text (pop (filter (matches rid) (pre @ m # post))) = Inr (Some v)"
      using last tv by simp
  qed
  then have l: "retrieve_loop rem rid 0 tr3 None =
       (tr3 @ concat (replicate k [ListMessages, Sleep 5000]) @ [ListMessages], Inr (Some m))"
    using last by (simp add: delay_def)
  have "result_message (retrieve_loop rem rid 0 tr3 None) =
      (tr3 @ concat (replicate k [ListMessages, Sleep 5000]) @ [ListMessages],
       Inr (strip_assistant v))"
    unfolding l using tv by (simp add: result_message_def)
  with sendMessage_after_poll [OF assms(1-7)] l show ?thesis by simp
qed

text \<open>C6, witness: the answer is there at the second attempt.\<close>

theorem retrieval_returns_last_matching_witness:
  "sendMessage remote_late_answer (Some (js_of ''hello'')) (Some ''thread_1'') (Some ''asst_1'') =
     Some ([PostMessage, CreateRun, GetRun, ListMessages, Sleep 5000, ListMessages],
           Inr (js_of ''hi''))"
proof -
  have p: "poll_run remote_late_answer [PostMessage, CreateRun, GetRun] ''completed'' =
      Some ([PostMessage, CreateRun, GetRun], Inr ''completed'')"
    by (rule poll_run_stop) (simp add: pending_def)
  have "retrieve_loop remote_late_answer ''run_1'' 0 [PostMessage, CreateRun, GetRun] None =
       ([PostMessage, CreateRun, GetRun] @ concat (replicate 1 [ListMessages, Sleep 5000])
          @ [ListMessages], Inr (Some answer_message))
     \<and> sendMessage remote_late_answer (Some (js_of ''hello'')) (Some ''thread_1'')
         (Some ''asst_1'') =
       Some ([PostMessage, CreateRun, GetRun] @ concat (replicate 1 [ListMessages, Sleep 5000])
               @ [ListMessages],
             Inr (strip_assistant (js_of ''hi'')))"
  proof (rule retrieval_returns_last_matching [where status = "''completed''"
        and final = "''completed''"
        and pre = "[\<lparr>role = ''assistant'', run_id = Some ''run_1'',
                 content = Some [TextPart (js_of ''first'')]\<rparr>]"
        and post = "[\<lparr>role = ''user'', run_id = None,
                 content = Some [TextPart (js_of ''hello'')]\<rparr>]"
        and parts = "[]"])
    show "\<not> falsy (Some (js_of ''hello''))" "\<not> falsy (Some ''thread_1'')"
      "\<not> falsy (Some ''asst_1'')"
      by (simp_all add: falsy_def js_of_def)
    show "post_message remote_late_answer = Resolved ()"
      "create_run remote_late_answer = Resolved ''run_1''"
      "run_status remote_late_answer 0 = Resolved ''completed''"
      by (simp_all add: remote_late_answer_def)
    show "poll_run remote_late_answer [PostMessage, CreateRun, GetRun] ''completed'' =
      Some ([PostMessage, CreateRun, GetRun], Inr ''completed'')" by (rule p)
    show "(1::nat) < 5" by simp
    show "\<forall>i < 1. no_answer ''run_1'' (list_messages remote_late_answer i)"
      by (simp add: no_answer_def remote_late_answer_def pop_def)
    show "list_messages remote_late_answer 1 = Resolved
        ([\<lparr>role = ''assistant'', run_id = Some ''run_1'',
                 content = Some [TextPart (js_of ''first'')]\<rparr>] @ answer_message #
         [\<lparr>role = ''user'', run_id = None,
                 content = Some [TextPart (js_of ''hello'')]\<rparr>])"
      by (simp add: remote_late_answer_def)
    show "matches ''run_1'' answer_message" by (simp add: matches_def answer_message_def)
    show "\<forall>x \<in> set [\<lparr>role = ''user'', run_id = None,
                 content = Some [TextPart (js_of ''hello'')]\<rparr>]. \<not> matches ''run_1'' x"
      by (simp add: matches_def)
    show "content answer_message = Some (TextPart (js_of ''hi'') # [])"
      by (simp add: answer_message_def)
    show "js_of ''hi'' \<noteq> []" by (simp add: js_of_def)
  qed
  then show ?thesis by (simp add: strip_assistant_def js_of_def)
qed

text \<open>
  C6, counterexample to the claim as stated: the listing holds an assistant message of
  the run with a non-empty text, but the last assistant message of the run has an empty
  text; the loop looks at the last one only, goes through its five attempts and the call
  throws.
\<close>

theorem retrieval_skips_earlier_answer_counterexample:
  "list_messages remote_answer_not_last 0 = Resolved
     [answer_message,
      \<lparr>role = ''assistant'', run_id = Some ''run_1'', content = Some [TextPart []]\<rparr>]
   \<and> matches ''run_1'' answer_message
   \<and> answer_text (Some answer_message) = Inr (Some (js_of ''hi''))
   \<and> sendMessage remote_answer_not_last (Some (js_of ''hello'')) (Some ''thread_1'')
       (Some ''asst_1'') =
     Some ([PostMessage, CreateRun, GetRun,
            ListMessages, Sleep 5000, ListMessages, Sleep 5000, ListMessages, Sleep 5000,
            ListMessages, Sleep 5000, ListMessages, Sleep 5000,
            LogError SendMessage5 RetrieveFailed],
           Inl RetrieveFailed)"
  by (simp add: service_eval remote_answer_not_last_def answer_message_def poll_run.simps)




text \<open>
  C10: a text that \<^verbatim>\<open>sendMessage\<close> returns is the text \<open>v\<close> of the first content part of
  the last assistant message of the run in a fetched list, with the first occurrence of
  \<^verbatim>\<open>Assistant:\<close> taken out and every other character kept (all of \<open>v\<close> when it does
  not occur); \<^verbatim>\<open>sendMessageToAgent\<close> then passes that text to \<^verbatim>\<open>removeCitations\<close>.
\<close>

theorem assistant_prefix_removed_once:
  assumes "sendMessage rem message threadId assistantId = Some (tr, Inr out)"
  shows "\<exists>rid n messageList m v parts.
       create_run rem = Resolved rid \<and> list_messages rem n = Resolved messageList
     \<and> pop (filter (matches rid) messageList) = Some m
     \<and> content m = Some (TextPart v # parts) \<and> v \<noteq> []
     \<and> out = strip_assistant v
     \<and> (\<forall>pre post. v = pre @ js_of ''Assistant:'' @ post
            \<and> (\<forall>pre' post'. v = pre' @ js_of ''Assistant:'' @ post' \<longrightarrow> length pre \<le> length pre')
          \<longrightarrow> out = pre @ post)
     \<and> ((\<nexists>pre post. v = pre @ js_of ''Assistant:'' @ post) \<longrightarrow> out = v)
     \<and> agent_reply rem message threadId assistantId =
         Some (tr, Inr (removeCitations (Some out)))"
proof -
  from sendMessage_success [OF assms] obtain rid tr3 lm v where
    c: "create_run rem = Resolved rid"
    and l: "retrieve_loop rem rid 0 tr3 None = (tr, Inr lm)"
    and a: "answer_text lm = Inr (Some v)" and out: "out = strip_assistant v"
    by blast
  from answer_text_Some [OF a] obtain m parts where
    m: "lm = Some m" "content m = Some (TextPart v # parts)" "v \<noteq> []" by blast
  from retrieve_loop_source [OF l] m(1) obtain n messageList where
    ml: "list_messages rem n = Resolved messageList"
      "pop (filter (matches rid) messageList) = Some m"
    by auto
  have first: "out = pre @ post"
    if "v = pre @ js_of ''Assistant:'' @ post
        \<and> (\<forall>pre' post'. v = pre' @ js_of ''Assistant:'' @ post' \<longrightarrow> length pre \<le> length pre')"
    for pre post
  proof -
    from that have "js_includes v (js_of ''Assistant:'')" by (auto simp: js_includes_iff)
    moreover from that have "replace_first v (js_of ''Assistant:'') [] = pre @ [] @ post"
      by (intro replace_first_at_first) auto
    ultimately show ?thesis by (simp add: out strip_assistant_def)
  qed
  have none: "out = v" if "\<nexists>pre post. v = pre @ js_of ''Assistant:'' @ post"
    using that by (simp add: out strip_assistant_def js_includes_iff)
  have "agent_reply rem message threadId assistantId =
      Some (tr, Inr (removeCitations (Some out)))"
    using assms by (simp add: agent_reply_def)
  with c ml m out first none show ?thesis by blast
qed

text \<open>
  C10, witness: of two occurrences the first is removed and the second stays, also after
  the sanitizer.
\<close>

theorem assistant_prefix_removed_once_witness:
  "sendMessage remote_two_prefixes (Some (js_of ''hello'')) (Some ''thread_1'') (Some ''asst_1'')
     = Some ([PostMessage, CreateRun, GetRun, ListMessages], Inr (js_of '' say Assistant: [2]''))
   \<and> agent_reply remote_two_prefixes (Some (js_of ''hello'')) (Some ''thread_1'') (Some ''asst_1'')
     = Some ([PostMessage, CreateRun, GetRun, ListMessages], Inr (js_of ''say Assistant:''))"
proof -
  have e: "sendMessage remote_two_prefixes (Some (js_of ''hello'')) (Some ''thread_1'')
      (Some ''asst_1'')
     = Some ([PostMessage, CreateRun, GetRun, ListMessages], Inr (js_of '' say Assistant: [2]''))"
    by (simp add: service_eval remote_two_prefixes_def poll_run.simps)
  from assistant_prefix_removed_once [OF e]
  have "agent_reply remote_two_prefixes (Some (js_of ''hello'')) (Some ''thread_1'')
      (Some ''asst_1'')
     = Some ([PostMessage, CreateRun, GetRun, ListMessages],
         Inr (removeCitations (Some (js_of '' say Assistant: [2]''))))"
    by blast
  moreover have "removeCitations (Some (js_of '' say Assistant: [2]'')) = js_of ''say Assistant:''"
    by (simp add: sanitizer_eval)
  ultimately show ?thesis using e by simp
qed

end
